theory Spec2Isabelle
  imports Complex_Main
begin

section \<open>JavaScript values, strings and numbers\<close>

text \<open>
  The services are TypeScript classes working on strings. A string is modelled as a
  \<^typ>\<open>string\<close> whose characters stand for ASCII code units: the whitespace class
  \<^verbatim>\<open>\s\<close> is the six ASCII whitespace characters, \<^verbatim>\<open>\d\<close> is \<^verbatim>\<open>[0-9]\<close>, and
  \<^verbatim>\<open>toUpperCase\<close> maps \<^verbatim>\<open>a-z\<close> to \<^verbatim>\<open>A-Z\<close> and leaves every other character alone.

  The numbers the services compute are small non-negative integers or \<^verbatim>\<open>NaN\<close>
  (what \<^verbatim>\<open>parseInt\<close> and \<^verbatim>\<open>Number\<close> give on a character that is no digit); they are
  modelled as \<^typ>\<open>nat option\<close>, \<^term>\<open>None\<close> being \<^verbatim>\<open>NaN\<close>.

  A \<^verbatim>\<open>throw\<close> is the left summand of a result of type \<open>error + 'a\<close>.
\<close>

datatype error =
    TypeError                 \<comment> \<open>a method called on \<^verbatim>\<open>null\<close> or \<^verbatim>\<open>undefined\<close>\<close>
  | PrefixNotNineDigits       \<comment> \<open>TCKN and VKN \<^verbatim>\<open>validatePrefix\<close>, first check\<close>
  | FirstDigitZero            \<comment> \<open>TCKN \<^verbatim>\<open>validatePrefix\<close>, second check\<close>
  | InvalidPrefixPattern      \<comment> \<open>TCKN \<^verbatim>\<open>validatePrefix\<close>, third check\<close>
  | PrefixTooShort            \<comment> \<open>credit card (under 4) and IMEI (under 8) \<^verbatim>\<open>complete\<close>\<close>
  | UndetectableNetwork       \<comment> \<open>credit card \<^verbatim>\<open>complete\<close>: no card type matches\<close>
  | AlreadyComplete           \<comment> \<open>credit card and IMEI \<^verbatim>\<open>complete\<close>\<close>
  | CannotComplete            \<comment> \<open>ISBN and EAN \<^verbatim>\<open>complete\<close>: no branch applies\<close>




definition is_digit :: "char \<Rightarrow> bool" where
  "is_digit c \<longleftrightarrow> (48::nat) \<le> of_char c \<and> of_char c \<le> (57::nat)"

definition digit_val :: "char \<Rightarrow> nat" where
  "digit_val c = of_char c - 48"

definition digit_char :: "nat \<Rightarrow> char" where
  "digit_char n = ''0123456789'' ! n"

definition is_space :: "char \<Rightarrow> bool" where
  \<comment> \<open>\<^verbatim>\<open>\s\<close> on ASCII: tab, line feed, vertical tab, form feed, carriage return, space\<close>
  "is_space c \<longleftrightarrow> of_char c \<in> {9::nat, 10, 11, 12, 13, 32}"

definition to_upper :: "char \<Rightarrow> char" where
  "to_upper c =
     (case map_of (zip ''abcdefghijklmnopqrstuvwxyz'' ''ABCDEFGHIJKLMNOPQRSTUVWXYZ'') c of
        None \<Rightarrow> c
      | Some u \<Rightarrow> u)"

definition toUpperCase :: "string \<Rightarrow> string" where
  "toUpperCase s = map to_upper s"

definition startsWith :: "string \<Rightarrow> string \<Rightarrow> bool" where
  \<comment> \<open>\<^verbatim>\<open>s.startsWith(p)\<close>\<close>
  "startsWith s p \<longleftrightarrow> take (length p) s = p"

definition substring :: "string \<Rightarrow> nat \<Rightarrow> nat \<Rightarrow> string" where
  \<comment> \<open>\<^verbatim>\<open>s.substring(a, b)\<close>; the smaller argument is the start\<close>
  "substring s a b = take (max a b - min a b) (drop (min a b) s)"

definition padEnd :: "string \<Rightarrow> nat \<Rightarrow> char \<Rightarrow> string" where
  "padEnd s n c = s @ replicate (n - length s) c"

definition padStart :: "string \<Rightarrow> nat \<Rightarrow> char \<Rightarrow> string" where
  "padStart s n c = replicate (n - length s) c @ s"

definition all_digits :: "string \<Rightarrow> bool" where
  "all_digits s \<longleftrightarrow> list_all is_digit s"

definition regex_digits_exact :: "nat \<Rightarrow> string \<Rightarrow> bool" where
  \<comment> \<open>\<^verbatim>\<open>/^\d{n}$/.test(s)\<close>\<close>
  "regex_digits_exact n s \<longleftrightarrow> length s = n \<and> all_digits s"

definition regex_digits_plus :: "string \<Rightarrow> bool" where
  \<comment> \<open>\<^verbatim>\<open>/^\d+$/.test(s)\<close>\<close>
  "regex_digits_plus s \<longleftrightarrow> s \<noteq> [] \<and> all_digits s"

function nat_toString :: "nat \<Rightarrow> string" where
  \<comment> \<open>\<^verbatim>\<open>n.toString()\<close> of a non-negative integer\<close>
  "nat_toString n =
     (if n < 10 then [digit_char n] else nat_toString (n div 10) @ [digit_char (n mod 10)])"
  by pat_completeness auto
termination
  by (relation "measure (\<lambda>n. n)") auto

declare nat_toString.simps [simp del]

definition num_toString :: "nat option \<Rightarrow> string" where
  "num_toString x = (case x of None \<Rightarrow> ''NaN'' | Some n \<Rightarrow> nat_toString n)"

definition dec_val :: "string \<Rightarrow> nat" where
  \<comment> \<open>the value of a string of decimal digits\<close>
  "dec_val s = foldl (\<lambda>a c. 10 * a + digit_val c) 0 s"

definition parseInt :: "string \<Rightarrow> nat option" where
  \<comment> \<open>\<^verbatim>\<open>parseInt(s, 10)\<close> on a string that starts with neither whitespace nor a sign: the
      value of the leading run of digits, \<^verbatim>\<open>NaN\<close> when the run is empty. The services call
      \<^verbatim>\<open>parseInt\<close> without a radix only on strings that start with a decimal digit and hold
      no \<^verbatim>\<open>x\<close>.\<close>
  "parseInt s = (let ds = takeWhile is_digit s in if ds = [] then None else Some (dec_val ds))"

definition parseInt_at :: "string \<Rightarrow> nat \<Rightarrow> nat option" where
  \<comment> \<open>\<^verbatim>\<open>parseInt(s[i], 10)\<close> and \<^verbatim>\<open>parseInt(s.charAt(i))\<close>: outside the string
      \<^verbatim>\<open>s[i]\<close> is \<^verbatim>\<open>undefined\<close> and \<^verbatim>\<open>s.charAt(i)\<close> is empty, both parsed as \<^verbatim>\<open>NaN\<close>\<close>
  "parseInt_at s i = (if i < length s then parseInt [s ! i] else None)"

definition Number_char :: "char \<Rightarrow> nat option" where
  \<comment> \<open>\<^verbatim>\<open>Number(c)\<close> of a one-character string: a digit's value, 0 for whitespace,
      \<^verbatim>\<open>NaN\<close> otherwise\<close>
  "Number_char c = (if is_digit c then Some (digit_val c) else if is_space c then Some 0 else None)"

definition nan_add :: "nat option \<Rightarrow> nat option \<Rightarrow> nat option" where
  "nan_add a b = (case a of None \<Rightarrow> None | Some x \<Rightarrow> (case b of None \<Rightarrow> None | Some y \<Rightarrow> Some (x + y)))"

definition strict_eq :: "nat option \<Rightarrow> nat option \<Rightarrow> bool" where
  \<comment> \<open>\<^verbatim>\<open>a === b\<close> on numbers: \<^verbatim>\<open>NaN\<close> equals nothing, not even itself\<close>
  "strict_eq a b = (case a of None \<Rightarrow> False | Some x \<Rightarrow> (case b of None \<Rightarrow> False | Some y \<Rightarrow> x = y))"

definition check_mod10 :: "nat \<Rightarrow> nat" where
  \<comment> \<open>\<^verbatim>\<open>(10 - (sum % 10)) % 10\<close>\<close>
  "check_mod10 sumv = (10 - sumv mod 10) mod 10"

subsection \<open>The random source\<close>

text \<open>
  \<^verbatim>\<open>Math.random()\<close> returns a number that is at least 0 and less than 1. The random
  source is the sequence of the numbers the calls will return; each call takes the first
  and leaves the rest. \<^verbatim>\<open>Math.floor(Math.random() * n)\<close> is computed over the reals. The
  product of two doubles is rounded, so for some numbers the code draws a neighbouring
  integer; it is again one of 0, ..., \<open>n - 1\<close>, which is what this model draws from
  another source, and the theorems about the random operations hold for every source.
\<close>

typedef unit_interval = "{x::real. 0 \<le> x \<and> x < 1}"
  by (rule exI[of _ 0]) simp

definition unit_of :: "real \<Rightarrow> unit_interval" where
  "unit_of x = Abs_unit_interval (if 0 \<le> x \<and> x < 1 then x else 0)"

type_synonym rng = "nat \<Rightarrow> unit_interval"

definition Math_random :: "rng \<Rightarrow> real \<times> rng" where
  "Math_random g = (Rep_unit_interval (g 0), \<lambda>i. g (Suc i))"

definition random_floor :: "nat \<Rightarrow> rng \<Rightarrow> nat \<times> rng" where
  \<comment> \<open>\<^verbatim>\<open>Math.floor(Math.random() * n)\<close>\<close>
  "random_floor n g = (case Math_random g of (x, g') \<Rightarrow> (nat \<lfloor>x * real n\<rfloor>, g'))"

fun random_digits :: "nat \<Rightarrow> rng \<Rightarrow> string \<times> rng" where
  \<comment> \<open>\<^verbatim>\<open>for (let i = 0; i < n; i++) s += Math.floor(Math.random() * 10).toString()\<close>,
      from the empty string\<close>
  "random_digits 0 g = ([], g)"
| "random_digits (Suc n) g =
     (case random_floor 10 g of (d, g') \<Rightarrow>
        (case random_digits n g' of (ds, g'') \<Rightarrow> (nat_toString d @ ds, g'')))"

function pad_random :: "nat \<Rightarrow> string \<Rightarrow> rng \<Rightarrow> string \<times> rng" where
  \<comment> \<open>\<^verbatim>\<open>while (s.length < n) s += Math.floor(Math.random() * 10).toString()\<close>\<close>
  "pad_random n s g =
     (if length s < n
      then (case random_floor 10 g of (d, g') \<Rightarrow> pad_random n (s @ nat_toString d) g')
      else (s, g))"
  by pat_completeness auto
termination
proof (relation "measure (\<lambda>(n, s, g). n - length s)")
  show "wf (measure (\<lambda>(n, s, g). n - length s))"
    by simp
next
  fix n :: nat and s :: string and g :: rng and x :: "nat \<times> rng" and d :: nat and g' :: rng
  assume "length s < n"
  have "0 < length (nat_toString d)"
    by (subst nat_toString.simps) simp
  with \<open>length s < n\<close>
  show "((n, s @ nat_toString d, g'), (n, s, g)) \<in> measure (\<lambda>(n, s, g). n - length s)"
    by (cases "nat_toString d") auto
qed

declare pad_random.simps [simp del]

section \<open>TcknService\<close>

definition TcknService_INVALID_PATTERNS :: "string list" where
  "TcknService_INVALID_PATTERNS =
     [''11111111110'', ''22222222220'', ''33333333330'', ''44444444440'', ''55555555550'',
      ''66666666660'', ''77777777770'', ''88888888880'', ''99999999990'']"

definition TcknService_INVALID_PREFIXES :: "string list" where
  "TcknService_INVALID_PREFIXES =
     [''111111111'', ''222222222'', ''333333333'', ''444444444'', ''555555555'',
      ''666666666'', ''777777777'', ''888888888'', ''999999999'']"

definition TcknService_calculateCheckDigits :: "string \<Rightarrow> nat option \<times> nat option" where
  \<comment> \<open>the two loops run over the indices 0, 2, 4, 6, 8 and 1, 3, 5, 7\<close>
  "TcknService_calculateCheckDigits prefix =
     (let t1 = foldl (\<lambda>t i. nan_add t (parseInt_at prefix i)) (Some 0) [0, 2, 4, 6, 8];
          t2 = foldl (\<lambda>t i. nan_add t (parseInt_at prefix i)) (Some 0) [1, 3, 5, 7]
      in case t1 of
           None \<Rightarrow> (None, None)
         | Some a \<Rightarrow>
             (case t2 of
                None \<Rightarrow> (None, None)
              | Some b \<Rightarrow>
                  (let c10 = (10 - ((a * 3 + b) mod 10)) mod 10;
                       c11 = (10 - ((((b + c10) * 3) + a) mod 10)) mod 10
                   in (Some c10, Some c11))))"

definition TcknService_validate :: "string \<Rightarrow> bool" where
  "TcknService_validate tckn =
     (if length tckn \<noteq> 11 then False
      else if \<not> regex_digits_exact 11 tckn then False
      else if tckn ! 0 = CHR ''0'' then False
      else if tckn \<in> set TcknService_INVALID_PATTERNS then False
      else (case TcknService_calculateCheckDigits (substring tckn 0 9) of
              (c10, c11) \<Rightarrow>
                strict_eq (parseInt_at tckn 9) c10 \<and> strict_eq (parseInt_at tckn 10) c11))"


definition TcknService_validatePrefix :: "string \<Rightarrow> error + unit" where
  "TcknService_validatePrefix prefix =
     (if \<not> regex_digits_exact 9 prefix then Inl PrefixNotNineDigits
      else if prefix ! 0 = CHR ''0'' then Inl FirstDigitZero
      else if prefix \<in> set TcknService_INVALID_PREFIXES then Inl InvalidPrefixPattern
      else Inr ())"

definition TcknService_complete :: "string \<Rightarrow> error + string" where
  "TcknService_complete prefix =
     (case TcknService_validatePrefix prefix of
        Inl e \<Rightarrow> Inl e
      | Inr _ \<Rightarrow>
          (case TcknService_calculateCheckDigits prefix of
             (c10, c11) \<Rightarrow> Inr (prefix @ num_toString c10 @ num_toString c11)))"

partial_function (option) TcknService_generate :: "rng \<Rightarrow> ((error + string) \<times> rng) option" where
  \<comment> \<open>the \<^verbatim>\<open>do ... while\<close> loop draws prefixes until one is not denylisted; a random
      source that never gives such a prefix keeps it running (the value \<^term>\<open>None\<close>)\<close>
  "TcknService_generate g =
     (case random_floor 9 g of (d, g1) \<Rightarrow>
        (case random_digits 8 g1 of (ds, g2) \<Rightarrow>
           (let prefix = nat_toString (d + 1) @ ds
            in if prefix \<in> set TcknService_INVALID_PREFIXES
               then TcknService_generate g2
               else Some (TcknService_complete prefix, g2))))"

section \<open>VknService\<close>

definition VknService_calculateCheckDigit_step :: "string \<Rightarrow> nat option \<Rightarrow> nat \<Rightarrow> nat option" where
  \<comment> \<open>the body of the loop of \<^verbatim>\<open>calculateCheckDigit\<close> at index \<open>i\<close>: the new \<^verbatim>\<open>sum\<close>\<close>
  "VknService_calculateCheckDigit_step prefix sumv i =
     (case parseInt_at prefix i of
        None \<Rightarrow> None
      | Some d \<Rightarrow>
          (let pos = i + 1;
               p = (d + 10 - pos) mod 10;
               q = (if p = 9 then 9 else (p * 2 ^ (10 - pos)) mod 9)
           in nan_add sumv (Some q)))"

definition VknService_calculateCheckDigit :: "string \<Rightarrow> nat option" where
  "VknService_calculateCheckDigit prefix =
     map_option check_mod10
       (foldl (VknService_calculateCheckDigit_step prefix) (Some 0) [0..<9])"

definition VknService_validate :: "string \<Rightarrow> bool" where
  "VknService_validate vkn =
     (if length vkn \<noteq> 10 then False
      else if \<not> regex_digits_exact 10 vkn then False
      else strict_eq (parseInt_at vkn 9) (VknService_calculateCheckDigit (substring vkn 0 9)))"


definition VknService_validatePrefix :: "string \<Rightarrow> error + unit" where
  "VknService_validatePrefix prefix =
     (if \<not> regex_digits_exact 9 prefix then Inl PrefixNotNineDigits else Inr ())"

definition VknService_complete :: "string \<Rightarrow> error + string" where
  "VknService_complete prefix =
     (case VknService_validatePrefix prefix of
        Inl e \<Rightarrow> Inl e
      | Inr _ \<Rightarrow> Inr (prefix @ num_toString (VknService_calculateCheckDigit prefix)))"

definition VknService_generate :: "rng \<Rightarrow> (error + string) \<times> rng" where
  "VknService_generate g =
     (case random_digits 9 g of (prefix, g') \<Rightarrow> (VknService_complete prefix, g'))"

section \<open>IbanService\<close>

definition IbanService_BANK_CODES :: "string list" where
  "IbanService_BANK_CODES =
     [''00001'', ''00010'', ''00012'', ''00015'', ''00032'', ''00046'', ''00062'', ''00067'',
      ''00111'', ''00123'', ''00134'', ''00135'', ''00143'', ''00146'', ''00149'', ''00203'',
      ''00206'']"

definition IbanService_fallback :: string where
  \<comment> \<open>the example IBAN that \<^verbatim>\<open>complete\<close> returns for the empty input and from its
      \<^verbatim>\<open>catch\<close>\<close>
  "IbanService_fallback = ''TR320010009999901234567890''"

definition remove_whitespace :: "string \<Rightarrow> string" where
  \<comment> \<open>\<^verbatim>\<open>s.replace(/\s/g, '')\<close>\<close>
  "remove_whitespace s = filter (\<lambda>c. \<not> is_space c) s"

definition regex_TR_24_digits :: "string \<Rightarrow> bool" where
  \<comment> \<open>\<^verbatim>\<open>/^TR\d{24}$/.test(s)\<close>\<close>
  "regex_TR_24_digits s \<longleftrightarrow> take 2 s = ''TR'' \<and> regex_digits_exact 24 (drop 2 s)"

definition is_upper :: "char \<Rightarrow> bool" where
  \<comment> \<open>\<^verbatim>\<open>[A-Z]\<close>\<close>
  "is_upper c \<longleftrightarrow> (65::nat) \<le> of_char c \<and> of_char c \<le> (90::nat)"

definition IbanService_convertLettersToNumbers :: "string \<Rightarrow> string" where
  \<comment> \<open>every letter \<^verbatim>\<open>A-Z\<close> is replaced by its code minus 55, written in decimal\<close>
  "IbanService_convertLettersToNumbers input =
     concat (map (\<lambda>c. if is_upper c then nat_toString (of_char c - 55) else [c]) input)"

function IbanService_calculateMod97_loop :: "string \<Rightarrow> nat \<Rightarrow> nat option \<Rightarrow> nat option" where
  \<comment> \<open>the \<^verbatim>\<open>for\<close> loop of \<^verbatim>\<open>calculateMod97\<close> from index \<open>i\<close> with the current
      \<^verbatim>\<open>remainder\<close>\<close>
  "IbanService_calculateMod97_loop numericString i remainder =
     (if i < length numericString
      then (let chunk = substring numericString i (i + 7);
                number = parseInt (num_toString remainder @ chunk)
            in IbanService_calculateMod97_loop numericString (i + 7)
                 (map_option (\<lambda>n. n mod 97) number))
      else remainder)"
  by pat_completeness auto
termination
  by (relation "measure (\<lambda>(s, i, r). length s - i)") auto

declare IbanService_calculateMod97_loop.simps [simp del]

definition IbanService_calculateMod97 :: "string \<Rightarrow> nat option" where
  "IbanService_calculateMod97 numericString =
     IbanService_calculateMod97_loop numericString 0 (Some 0)"

definition IbanService_validateChecksum :: "string \<Rightarrow> bool" where
  "IbanService_validateChecksum iban =
     (let rearranged = drop 4 iban @ substring iban 0 4;
          numericString = IbanService_convertLettersToNumbers rearranged;
          remainder = IbanService_calculateMod97 numericString
      in strict_eq remainder (Some 1))"

definition IbanService_validate :: "string \<Rightarrow> bool" where
  "IbanService_validate v =
     (let cleanNumber = toUpperCase (remove_whitespace v)
      in if \<not> startsWith cleanNumber ''TR'' then False
         else if length cleanNumber \<noteq> 26 then False
         else if \<not> regex_TR_24_digits cleanNumber then False
         else if substring cleanNumber 9 10 \<noteq> ''0'' then False
         else IbanService_validateChecksum cleanNumber)"


definition IbanService_calculateCheckDigits :: "string \<Rightarrow> string" where
  \<comment> \<open>\<^verbatim>\<open>98 - remainder\<close> is not negative: a remainder is below 97\<close>
  "IbanService_calculateCheckDigits ibanWithPlaceholder =
     (let ibanWithZeros = substring ibanWithPlaceholder 0 2 @ ''00'' @ drop 4 ibanWithPlaceholder;
          rearranged = drop 4 ibanWithZeros @ substring ibanWithZeros 0 4;
          numericString = IbanService_convertLettersToNumbers rearranged;
          remainder = IbanService_calculateMod97 numericString;
          checkDigits = map_option (\<lambda>r. 98 - r) remainder
      in padStart (num_toString checkDigits) 2 CHR ''0'')"

definition IbanService_generateRandomAccountNumber :: "rng \<Rightarrow> string \<times> rng" where
  "IbanService_generateRandomAccountNumber g = random_digits 16 g"

function IbanService_formatIban_loop :: "string \<Rightarrow> nat \<Rightarrow> string \<Rightarrow> string" where
  \<comment> \<open>the \<^verbatim>\<open>for\<close> loop of \<^verbatim>\<open>formatIban\<close> from index \<open>i\<close>\<close>
  "IbanService_formatIban_loop clean i formatted =
     (if i < length clean
      then IbanService_formatIban_loop clean (i + 4)
             ((if 0 < i then formatted @ '' '' else formatted) @ substring clean i (i + 4))
      else formatted)"
  by pat_completeness auto
termination
  by (relation "measure (\<lambda>(s, i, f). length s - i)") auto

declare IbanService_formatIban_loop.simps [simp del]

definition IbanService_formatIban :: "string \<Rightarrow> string" where
  "IbanService_formatIban iban = IbanService_formatIban_loop (remove_whitespace iban) 0 []"

definition IbanService_assemble :: "string \<Rightarrow> string \<Rightarrow> string" where
  \<comment> \<open>the lines shared by \<^verbatim>\<open>generate\<close> and \<^verbatim>\<open>complete\<close>: the IBAN with placeholder
      check digits, its check digits, the final IBAN, formatted\<close>
  "IbanService_assemble bankCode accountNumber =
     (let baseIban = ''TR'' @ ''00'' @ bankCode @ ''0'' @ accountNumber;
          checkDigits = IbanService_calculateCheckDigits baseIban;
          fullIban = ''TR'' @ checkDigits @ bankCode @ ''0'' @ accountNumber
      in IbanService_formatIban fullIban)"

definition IbanService_generate :: "rng \<Rightarrow> string \<times> rng" where
  "IbanService_generate g =
     (case random_floor (length IbanService_BANK_CODES) g of (k, g1) \<Rightarrow>
        (case IbanService_generateRandomAccountNumber g1 of (accountNumber, g2) \<Rightarrow>
           (IbanService_assemble (IbanService_BANK_CODES ! k) accountNumber, g2)))"

definition IbanService_complete :: "string \<Rightarrow> rng \<Rightarrow> string \<times> rng" where
  \<comment> \<open>the body of the \<^verbatim>\<open>try\<close> of \<^verbatim>\<open>complete\<close> on a string\<close>
  "IbanService_complete prefix g =
     (let clean = toUpperCase (remove_whitespace prefix)
      in if \<not> startsWith clean ''TR''
         then (if length clean = 0 then (IbanService_fallback, g)
               else (''TR'' @ padEnd clean 24 CHR ''0'', g))
         else if length clean < 26
         then (case IbanService_generateRandomAccountNumber g of (accountNumber, g') \<Rightarrow>
                 (IbanService_assemble (IbanService_BANK_CODES ! 0) accountNumber, g'))
         else (IbanService_formatIban clean, g))"



section \<open>Regular expressions and formatting shared by the services\<close>

fun regex_prefix :: "string list \<Rightarrow> string \<Rightarrow> bool" where
  \<comment> \<open>an anchored pattern such as \<^verbatim>\<open>/^5[1-5]/\<close>, given as the list of its character
      classes (\<open>[''5'', ''12345'']\<close>), tested on a string\<close>
  "regex_prefix [] s = True"
| "regex_prefix (cls # p) [] = False"
| "regex_prefix (cls # p) (c # s) = (c \<in> set cls \<and> regex_prefix p s)"

fun split_groups :: "nat list \<Rightarrow> string \<Rightarrow> string" where
  \<comment> \<open>the replacement \<^verbatim>\<open>'$1 $2 ...'\<close> for groups of the given sizes at the start of the
      string, followed by the rest of the string\<close>
  "split_groups (n # m # ns) s = take n s @ '' '' @ split_groups (m # ns) (drop n s)"
| "split_groups ns s = s"

fun replace_digit_groups :: "nat list \<Rightarrow> string \<Rightarrow> string" where
  \<comment> \<open>\<^verbatim>\<open>s.replace(/(\d{n1})(\d{n2})...)/, '$1 $2 ...')\<close>: the first run of
      \<open>n1 + n2 + ...\<close> digits is split into groups, the rest is unchanged\<close>
  "replace_digit_groups ns [] = []"
| "replace_digit_groups ns (c # cs) =
     (if sum_list ns \<le> length (c # cs) \<and> all_digits (take (sum_list ns) (c # cs))
      then split_groups ns (c # cs)
      else c # replace_digit_groups ns cs)"

fun replace_4digits_global :: "string \<Rightarrow> string" where
  \<comment> \<open>\<^verbatim>\<open>s.replace(/(\d{4})/g, '$1 ')\<close>: every run of four digits, found from the left
      without overlap, is followed by a space\<close>
  "replace_4digits_global (a # b # c # d # rest) =
     (if is_digit a \<and> is_digit b \<and> is_digit c \<and> is_digit d
      then a # b # c # d # CHR '' '' # replace_4digits_global rest
      else a # replace_4digits_global (b # c # d # rest))"
| "replace_4digits_global s = s"

definition trim :: "string \<Rightarrow> string" where
  "trim s = rev (dropWhile is_space (rev (dropWhile is_space s)))"

fun luhn_loop :: "string \<Rightarrow> bool \<Rightarrow> nat option \<Rightarrow> nat option" where
  \<comment> \<open>the loop of \<^verbatim>\<open>validateLuhn\<close> and \<^verbatim>\<open>calculateLuhnCheckDigit\<close> (the credit card and
      the IMEI service have the same two functions): it reads the characters from the last
      to the first, so it is given the reversed string, with the current
      \<^verbatim>\<open>shouldDouble\<close> and \<^verbatim>\<open>sum\<close>\<close>
  "luhn_loop [] shouldDouble sumv = sumv"
| "luhn_loop (c # cs) shouldDouble sumv =
     (let digit = parseInt [c];
          digit' = (if shouldDouble
                    then map_option (\<lambda>d. if 9 < d * 2 then d * 2 - 9 else d * 2) digit
                    else digit)
      in luhn_loop cs (\<not> shouldDouble) (nan_add sumv digit'))"

section \<open>CreditCardService\<close>

record card_type =
  patterns :: "string list list"
  lengths :: "nat list"
  name :: string

definition CreditCardService_CARD_TYPES :: "(string \<times> card_type) list" where
  \<comment> \<open>the entries of \<^verbatim>\<open>CARD_TYPES\<close> in their order\<close>
  "CreditCardService_CARD_TYPES =
     [(''visa'', \<lparr>patterns = [[''4'']], lengths = [13, 16, 19], name = ''Visa''\<rparr>),
      (''mastercard'', \<lparr>patterns = [[''5'', ''12345''], [''2'', ''234567'']], lengths = [16],
          name = ''Mastercard''\<rparr>),
      (''amex'', \<lparr>patterns = [[''3'', ''47'']], lengths = [15], name = ''American Express''\<rparr>),
      (''discover'', \<lparr>patterns = [[''6'', ''0'', ''1'', ''1''], [''6'', ''4'', ''456789''], [''6'', ''5'']],
          lengths = [16], name = ''Discover''\<rparr>),
      (''jcb'', \<lparr>patterns = [[''3'', ''5'', ''2345678'', ''89'']], lengths = [16], name = ''JCB''\<rparr>),
      (''diners'', \<lparr>patterns = [[''3'', ''0689'']], lengths = [14], name = ''Diners Club''\<rparr>)]"

definition CreditCardService_cleanInput :: "string \<Rightarrow> string" where
  \<comment> \<open>\<^verbatim>\<open>input.replace(/[\s\-]/g, '')\<close>\<close>
  "CreditCardService_cleanInput input = filter (\<lambda>c. \<not> (is_space c \<or> c = CHR ''-'')) input"

definition CreditCardService_detectCardType :: "string \<Rightarrow> card_type option" where
  \<comment> \<open>the first card type, in the order of \<^verbatim>\<open>CARD_TYPES\<close>, one of whose patterns
      matches\<close>
  "CreditCardService_detectCardType cardNumber =
     find (\<lambda>info. list_ex (\<lambda>pattern. regex_prefix pattern cardNumber) (patterns info))
       (map snd CreditCardService_CARD_TYPES)"

definition CreditCardService_validateLuhn :: "string \<Rightarrow> bool" where
  "CreditCardService_validateLuhn cardNumber =
     strict_eq (map_option (\<lambda>s. s mod 10) (luhn_loop (rev cardNumber) False (Some 0))) (Some 0)"

definition CreditCardService_calculateLuhnCheckDigit :: "string \<Rightarrow> string" where
  "CreditCardService_calculateLuhnCheckDigit payload =
     num_toString (map_option check_mod10 (luhn_loop (rev payload) True (Some 0)))"

definition CreditCardService_validate :: "string \<Rightarrow> bool" where
  \<comment> \<open>\<^verbatim>\<open>validateDetailed(input).isValid\<close>\<close>
  "CreditCardService_validate input =
     (let cleanInput = CreditCardService_cleanInput input
      in if cleanInput = [] then False
         else if \<not> regex_digits_plus cleanInput then False
         else (case CreditCardService_detectCardType cleanInput of
                 None \<Rightarrow> False
               | Some cardType \<Rightarrow>
                   if length cleanInput \<notin> set (lengths cardType) then False
                   else if \<not> CreditCardService_validateLuhn cleanInput then False
                   else True))"


definition CreditCardService_formatCardNumber :: "string \<Rightarrow> string" where
  "CreditCardService_formatCardNumber cardNumber =
     (if length cardNumber = 15 then replace_digit_groups [4, 6, 5] cardNumber
      else if length cardNumber = 14 then replace_digit_groups [4, 6, 4] cardNumber
      else trim (replace_4digits_global cardNumber))"

definition CreditCardService_generateNumberForPattern ::
    "string list \<Rightarrow> nat \<Rightarrow> rng \<Rightarrow> string \<times> rng" where
  \<comment> \<open>the chain of comparisons of \<^verbatim>\<open>pattern.source\<close>, then the padding loop; a pattern
      that is none of the nine leaves the prefix empty\<close>
  "CreditCardService_generateNumberForPattern pattern len g =
     (case
        (if pattern = [''4''] then (''4'', g)
         else if pattern = [''5'', ''12345'']
         then (case random_floor 5 g of (k, g') \<Rightarrow> (''5'' @ nat_toString (1 + k), g'))
         else if pattern = [''2'', ''234567'']
         then (case random_floor 6 g of (k, g') \<Rightarrow>
                 (let prefix = ''2'' @ nat_toString (2 + k)
                  in if prefix = ''22''
                     then (case random_floor 79 g' of (j, g'') \<Rightarrow>
                             (prefix @ nat_toString (21 + j), g''))
                     else if prefix = ''27''
                     then (case random_floor 21 g' of (j, g'') \<Rightarrow>
                             (prefix @ padStart (nat_toString (0 + j)) 2 CHR ''0'', g''))
                     else (case random_floor 100 g' of (j, g'') \<Rightarrow>
                             (prefix @ padStart (nat_toString j) 2 CHR ''0'', g''))))
         else if pattern = [''3'', ''47'']
         then (case Math_random g of (x, g') \<Rightarrow> (''3'' @ (if x < 1 / 2 then ''4'' else ''7''), g'))
         else if pattern = [''6'', ''0'', ''1'', ''1''] then (''6011'', g)
         else if pattern = [''6'', ''4'', ''456789'']
         then (case random_floor 6 g of (k, g') \<Rightarrow> (''64'' @ nat_toString (4 + k), g'))
         else if pattern = [''6'', ''5''] then (''65'', g)
         else if pattern = [''3'', ''5'', ''2345678'', ''89'']
         then (case random_floor 7 g of (k, g') \<Rightarrow>
                 (case random_floor 2 g' of (j, g'') \<Rightarrow>
                    (''35'' @ nat_toString (2 + k) @ nat_toString (8 + j), g'')))
         else if pattern = [''3'', ''0689'']
         then (case random_floor 4 g of (k, g') \<Rightarrow> (''3'' @ [''0689'' ! k], g'))
         else ([], g))
      of (prefix, g1) \<Rightarrow> pad_random (len - 1) prefix g1)"

definition CreditCardService_getRandomCardType :: "rng \<Rightarrow> string \<times> rng" where
  "CreditCardService_getRandomCardType g =
     (let types = map fst CreditCardService_CARD_TYPES
      in case random_floor (length types) g of (k, g') \<Rightarrow> (types ! k, g'))"

definition CreditCardService_generate :: "rng \<Rightarrow> (error + string) \<times> rng" where
  \<comment> \<open>a key that is not in \<^verbatim>\<open>CARD_TYPES\<close> would make \<^verbatim>\<open>cardInfo\<close> undefined and
      \<^verbatim>\<open>cardInfo.patterns\<close> throw\<close>
  "CreditCardService_generate g =
     (case CreditCardService_getRandomCardType g of (cardType, g1) \<Rightarrow>
        (case map_of CreditCardService_CARD_TYPES cardType of
           None \<Rightarrow> (Inl TypeError, g1)
         | Some cardInfo \<Rightarrow>
             (let pattern = patterns cardInfo ! 0;
                  len = lengths cardInfo ! 0
              in case CreditCardService_generateNumberForPattern pattern len g1 of
                   (cardNumber, g2) \<Rightarrow>
                     (let payload = substring cardNumber 0 (len - 1);
                          checkDigit = CreditCardService_calculateLuhnCheckDigit payload
                      in (Inr (CreditCardService_formatCardNumber (payload @ checkDigit)), g2)))))"

definition CreditCardService_complete :: "string \<Rightarrow> rng \<Rightarrow> (error + string) \<times> rng" where
  "CreditCardService_complete partialInput g =
     (let cleanInput = CreditCardService_cleanInput partialInput
      in if cleanInput = [] \<or> length cleanInput < 4 then (Inl PrefixTooShort, g)
         else (case CreditCardService_detectCardType cleanInput of
                 None \<Rightarrow> (Inl UndetectableNetwork, g)
               | Some cardType \<Rightarrow>
                   (let targetLength = lengths cardType ! 0
                    in if targetLength \<le> length cleanInput then (Inl AlreadyComplete, g)
                       else (case pad_random (targetLength - 1) cleanInput g of
                               (completed, g') \<Rightarrow>
                                 (let checkDigit = CreditCardService_calculateLuhnCheckDigit completed
                                  in (Inr (CreditCardService_formatCardNumber (completed @ checkDigit)),
                                      g'))))))"

section \<open>ImeiService\<close>

definition ImeiService_COMMON_TACS :: "string list" where
  "ImeiService_COMMON_TACS =
     [''01215200'', ''01215300'', ''01215400'', ''01332100'', ''01332200'',
      ''35238708'', ''35238709'', ''35238710'', ''35999205'', ''35999206'',
      ''86446003'', ''86446103'', ''86446203'', ''35316409'', ''35316410'',
      ''86585403'', ''86585404'', ''86585405'', ''86585503'', ''86585504'',
      ''35161511'', ''35161512'', ''35161513'', ''35161514'', ''35161515'',
      ''35925806'', ''35925807'', ''35925808'', ''35925809'', ''35925810'',
      ''01180000'', ''01180100'', ''01180200'', ''35209900'', ''35209901'',
      ''35403906'', ''35403907'', ''35403908'', ''35403909'', ''35403910'',
      ''86177103'', ''86177104'', ''86177105'', ''86177106'', ''86177107'',
      ''35685302'', ''35685303'', ''35685304'', ''35685305'', ''35685306'']"

definition ImeiService_cleanInput :: "string \<Rightarrow> string" where
  \<comment> \<open>\<^verbatim>\<open>input.replace(/[\s\-\.]/g, '')\<close>\<close>
  "ImeiService_cleanInput input =
     filter (\<lambda>c. \<not> (is_space c \<or> c = CHR ''-'' \<or> c = CHR ''.'')) input"

definition ImeiService_validateLuhn :: "string \<Rightarrow> bool" where
  "ImeiService_validateLuhn imei =
     strict_eq (map_option (\<lambda>s. s mod 10) (luhn_loop (rev imei) False (Some 0))) (Some 0)"

definition ImeiService_calculateLuhnCheckDigit :: "string \<Rightarrow> string" where
  "ImeiService_calculateLuhnCheckDigit payload =
     num_toString (map_option check_mod10 (luhn_loop (rev payload) True (Some 0)))"

definition ImeiService_validate :: "string \<Rightarrow> bool" where
  \<comment> \<open>\<^verbatim>\<open>validateDetailed(input).isValid\<close>\<close>
  "ImeiService_validate input =
     (let cleanInput = ImeiService_cleanInput input
      in if cleanInput = [] then False
         else if \<not> regex_digits_exact 15 cleanInput then False
         else if \<not> ImeiService_validateLuhn cleanInput then False
         else True)"


definition ImeiService_formatImei :: "string \<Rightarrow> string" where
  "ImeiService_formatImei imei = replace_digit_groups [2, 6, 6, 1] imei"

definition ImeiService_generate :: "rng \<Rightarrow> string \<times> rng" where
  "ImeiService_generate g =
     (case random_floor (length ImeiService_COMMON_TACS) g of (k, g1) \<Rightarrow>
        (case random_floor 1000000 g1 of (n, g2) \<Rightarrow>
           (let tac = ImeiService_COMMON_TACS ! k;
                serialNumber = padStart (nat_toString n) 6 CHR ''0'';
                payload = tac @ serialNumber;
                checkDigit = ImeiService_calculateLuhnCheckDigit payload
            in (ImeiService_formatImei (payload @ checkDigit), g2))))"

definition ImeiService_complete :: "string \<Rightarrow> rng \<Rightarrow> (error + string) \<times> rng" where
  "ImeiService_complete partialInput g =
     (let cleanInput = ImeiService_cleanInput partialInput
      in if cleanInput = [] \<or> length cleanInput < 8 then (Inl PrefixTooShort, g)
         else if 15 \<le> length cleanInput then (Inl AlreadyComplete, g)
         else (case pad_random 14 cleanInput g of
                 (completed, g') \<Rightarrow>
                   (let checkDigit = ImeiService_calculateLuhnCheckDigit completed
                    in (Inr (ImeiService_formatImei (completed @ checkDigit)), g'))))"

section \<open>IsbnService\<close>

definition IsbnService_COMMON_PREFIXES_ISBN13 :: "string list" where
  "IsbnService_COMMON_PREFIXES_ISBN13 = [''978'', ''979'']"

definition IsbnService_COMMON_GROUPS :: "string list" where
  "IsbnService_COMMON_GROUPS = [''0'', ''1'', ''2'', ''3'', ''4'', ''5'', ''7'', ''9'']"

definition IsbnService_cleanInput :: "string \<Rightarrow> string" where
  \<comment> \<open>\<^verbatim>\<open>input.replace(/[-\s]/g, '').toUpperCase()\<close>\<close>
  "IsbnService_cleanInput input =
     toUpperCase (filter (\<lambda>c. \<not> (c = CHR ''-'' \<or> is_space c)) input)"

definition regex_digits_or_X_exact :: "nat \<Rightarrow> string \<Rightarrow> bool" where
  \<comment> \<open>\<^verbatim>\<open>/^[\dX]{n}$/.test(s)\<close>\<close>
  "regex_digits_or_X_exact n s \<longleftrightarrow> length s = n \<and> list_all (\<lambda>c. is_digit c \<or> c = CHR ''X'') s"

definition IsbnService_isbn10_sum :: "string \<Rightarrow> nat option" where
  \<comment> \<open>the loop \<^verbatim>\<open>for (let i = 0; i < 9; i++) sum += (10 - i) * parseInt(isbn[i], 10)\<close>,
      written out in \<^verbatim>\<open>validateIsbn10\<close>, \<^verbatim>\<open>generateIsbn10\<close> and \<^verbatim>\<open>completeAsIsbn10\<close>\<close>
  "IsbnService_isbn10_sum isbn =
     foldl (\<lambda>sumv i. nan_add sumv (map_option (\<lambda>d. (10 - i) * d) (parseInt_at isbn i)))
       (Some 0) [0..<9]"

definition IsbnService_calculateIsbn10CheckDigit :: "nat option \<Rightarrow> string" where
  \<comment> \<open>on \<^verbatim>\<open>NaN\<close> the check digit is \<^verbatim>\<open>NaN\<close>, which is not 10 and prints as
      \<^verbatim>\<open>"NaN"\<close>\<close>
  "IsbnService_calculateIsbn10CheckDigit sumv =
     (case sumv of
        None \<Rightarrow> ''NaN''
      | Some s \<Rightarrow>
          (let remainder = s mod 11;
               checkDigit = (11 - remainder) mod 11
           in if checkDigit = 10 then ''X'' else nat_toString checkDigit))"

definition IsbnService_validateIsbn10 :: "string \<Rightarrow> bool" where
  "IsbnService_validateIsbn10 isbn =
     (if \<not> regex_digits_or_X_exact 10 isbn then False
      else (let sumv = IsbnService_isbn10_sum isbn;
                checkDigit = [isbn ! 9];
                calculatedCheck = IsbnService_calculateIsbn10CheckDigit sumv
            in checkDigit = calculatedCheck))"

definition IsbnService_isbn13_sum :: "string \<Rightarrow> nat option" where
  \<comment> \<open>the loop over the first twelve characters, written out in \<^verbatim>\<open>validateIsbn13\<close> and
      \<^verbatim>\<open>calculateIsbn13CheckDigit\<close>\<close>
  "IsbnService_isbn13_sum isbn =
     foldl (\<lambda>sumv i. nan_add sumv
                (map_option (\<lambda>digit. if i mod 2 = 0 then digit else digit * 3) (parseInt_at isbn i)))
       (Some 0) [0..<12]"

definition IsbnService_validateIsbn13 :: "string \<Rightarrow> bool" where
  "IsbnService_validateIsbn13 isbn =
     (if \<not> regex_digits_exact 13 isbn then False
      else if \<not> startsWith isbn ''978'' \<and> \<not> startsWith isbn ''979'' then False
      else (let sumv = IsbnService_isbn13_sum isbn;
                checkDigit = parseInt_at isbn 12;
                calculatedCheck = map_option check_mod10 sumv
            in strict_eq checkDigit calculatedCheck))"

definition IsbnService_calculateIsbn13CheckDigit :: "string \<Rightarrow> string" where
  "IsbnService_calculateIsbn13CheckDigit isbn12 =
     num_toString (map_option check_mod10 (IsbnService_isbn13_sum isbn12))"

definition IsbnService_validate :: "string \<Rightarrow> bool" where
  "IsbnService_validate input =
     (let cleaned = IsbnService_cleanInput input
      in if length cleaned = 10 then IsbnService_validateIsbn10 cleaned
         else if length cleaned = 13 then IsbnService_validateIsbn13 cleaned
         else False)"


definition IsbnService_formatIsbn10 :: "string \<Rightarrow> string" where
  "IsbnService_formatIsbn10 isbn =
     (if length isbn \<noteq> 10 then isbn
      else substring isbn 0 1 @ ''-'' @ substring isbn 1 4 @ ''-'' @ substring isbn 4 9 @ ''-'' @
           drop 9 isbn)"

definition IsbnService_formatIsbn13 :: "string \<Rightarrow> string" where
  "IsbnService_formatIsbn13 isbn =
     (if length isbn \<noteq> 13 then isbn
      else substring isbn 0 3 @ ''-'' @ substring isbn 3 4 @ ''-'' @ substring isbn 4 7 @ ''-'' @
           substring isbn 7 12 @ ''-'' @ drop 12 isbn)"

definition generateRandomDigits :: "nat \<Rightarrow> nat option \<Rightarrow> rng \<Rightarrow> string \<times> rng" where
  \<comment> \<open>\<^verbatim>\<open>generateRandomDigits(min, max?)\<close> of the ISBN and the EAN service: the length is
      \<^verbatim>\<open>min\<close> when \<^verbatim>\<open>max\<close> is absent or 0, and
      \<^verbatim>\<open>Math.floor(Math.random() * (max - min + 1)) + min\<close> otherwise (every call has
      \<^verbatim>\<open>min \<le> max\<close>)\<close>
  "generateRandomDigits mn mx g =
     (case (case mx of
              None \<Rightarrow> (mn, g)
            | Some m \<Rightarrow>
                if m = 0 then (mn, g)
                else (case random_floor (m - mn + 1) g of (k, g') \<Rightarrow> (k + mn, g')))
      of (len, g1) \<Rightarrow> random_digits len g1)"

definition getRandomElement :: "string list \<Rightarrow> rng \<Rightarrow> string \<times> rng" where
  \<comment> \<open>\<^verbatim>\<open>array[Math.floor(Math.random() * array.length)]\<close>, of the ISBN and the EAN
      service\<close>
  "getRandomElement array g =
     (case random_floor (length array) g of (k, g') \<Rightarrow> (array ! k, g'))"

partial_function (option) IsbnService_generateIsbn10 :: "rng \<Rightarrow> (string \<times> rng) option" where
  \<comment> \<open>the function calls itself again when the drawn parts are longer than nine digits\<close>
  "IsbnService_generateIsbn10 g =
     (case getRandomElement IsbnService_COMMON_GROUPS g of (grp, g1) \<Rightarrow>
        (case generateRandomDigits 2 (Some 4) g1 of (publisher, g2) \<Rightarrow>
           (case generateRandomDigits 3 (Some 5) g2 of (title, g3) \<Rightarrow>
              (let totalLength = length grp + length publisher + length title
               in if 9 < totalLength then IsbnService_generateIsbn10 g3
                  else (let padding = replicate (9 - totalLength) CHR ''0'';
                            isbn9 = grp @ publisher @ title @ padding;
                            checkDigit =
                              IsbnService_calculateIsbn10CheckDigit (IsbnService_isbn10_sum isbn9);
                            isbn10 = isbn9 @ checkDigit
                        in Some (IsbnService_formatIsbn10 isbn10, g3))))))"

partial_function (option) IsbnService_generateIsbn13 :: "rng \<Rightarrow> (string \<times> rng) option" where
  "IsbnService_generateIsbn13 g =
     (case getRandomElement IsbnService_COMMON_PREFIXES_ISBN13 g of (prefix, g0) \<Rightarrow>
        (case getRandomElement IsbnService_COMMON_GROUPS g0 of (grp, g1) \<Rightarrow>
           (case generateRandomDigits 2 (Some 4) g1 of (publisher, g2) \<Rightarrow>
              (case generateRandomDigits 3 (Some 5) g2 of (title, g3) \<Rightarrow>
                 (let totalLength = length prefix + length grp + length publisher + length title
                  in if 12 < totalLength then IsbnService_generateIsbn13 g3
                     else (let padding = replicate (12 - totalLength) CHR ''0'';
                               isbn12 = prefix @ grp @ publisher @ title @ padding;
                               checkDigit = IsbnService_calculateIsbn13CheckDigit isbn12;
                               isbn13 = isbn12 @ checkDigit
                           in Some (IsbnService_formatIsbn13 isbn13, g3)))))))"

definition IsbnService_generate :: "rng \<Rightarrow> (string \<times> rng) option" where
  "IsbnService_generate g =
     (case Math_random g of (x, g1) \<Rightarrow>
        if x < 7 / 10 then IsbnService_generateIsbn13 g1 else IsbnService_generateIsbn10 g1)"

definition IsbnService_completeAsIsbn10 :: "string \<Rightarrow> rng \<Rightarrow> string \<times> rng" where
  "IsbnService_completeAsIsbn10 partial g =
     (let needed = 9 - int (length partial)
      in if needed \<le> 0
         then (let padded = padEnd partial 9 CHR ''0'';
                   checkDigit =
                     IsbnService_calculateIsbn10CheckDigit (IsbnService_isbn10_sum padded)
               in (IsbnService_formatIsbn10 (padded @ checkDigit), g))
         else (case generateRandomDigits (nat needed) None g of (completion, g') \<Rightarrow>
                 (let isbn9 = partial @ completion;
                      checkDigit =
                        IsbnService_calculateIsbn10CheckDigit (IsbnService_isbn10_sum isbn9)
                  in (IsbnService_formatIsbn10 (isbn9 @ checkDigit), g'))))"

definition IsbnService_completeAsIsbn13 :: "string \<Rightarrow> rng \<Rightarrow> string \<times> rng" where
  "IsbnService_completeAsIsbn13 partial g =
     (let workingPartial =
            (if \<not> startsWith partial ''978'' \<and> \<not> startsWith partial ''979''
             then ''978'' @ partial else partial);
          needed = 12 - int (length workingPartial)
      in if needed \<le> 0
         then (let isbn12 = substring workingPartial 0 12;
                   checkDigit = IsbnService_calculateIsbn13CheckDigit isbn12
               in (IsbnService_formatIsbn13 (isbn12 @ checkDigit), g))
         else (case generateRandomDigits (nat needed) None g of (completion, g') \<Rightarrow>
                 (let isbn12 = workingPartial @ completion;
                      checkDigit = IsbnService_calculateIsbn13CheckDigit isbn12
                  in (IsbnService_formatIsbn13 (isbn12 @ checkDigit), g'))))"

definition IsbnService_complete :: "string \<Rightarrow> rng \<Rightarrow> (error + string) \<times> rng" where
  "IsbnService_complete partial g =
     (let cleaned = IsbnService_cleanInput partial
      in if 3 \<le> length cleaned \<and> length cleaned < 10
         then (case IsbnService_completeAsIsbn10 cleaned g of (r, g') \<Rightarrow> (Inr r, g'))
         else if 3 \<le> length cleaned \<and> length cleaned < 13
         then (case IsbnService_completeAsIsbn13 cleaned g of (r, g') \<Rightarrow> (Inr r, g'))
         else (Inl CannotComplete, g))"

section \<open>EanService\<close>

definition EanService_COMMON_GS1_PREFIXES :: "string list" where
  "EanService_COMMON_GS1_PREFIXES =
     [''000'', ''001'', ''002'', ''003'', ''004'', ''005'', ''006'', ''007'', ''008'', ''009'',
      ''020'', ''021'', ''022'', ''023'', ''024'', ''025'', ''026'', ''027'', ''028'', ''029'',
      ''030'', ''031'', ''032'', ''033'', ''034'', ''035'', ''036'', ''037'', ''038'', ''039'',
      ''040'', ''041'', ''042'', ''043'', ''044'', ''045'', ''046'', ''047'', ''048'', ''049'',
      ''050'', ''051'', ''052'', ''053'', ''054'', ''055'', ''056'', ''057'', ''058'', ''059'',
      ''060'', ''061'', ''062'', ''063'', ''064'', ''065'', ''066'', ''067'', ''068'', ''069'',
      ''070'', ''071'', ''072'', ''073'', ''074'', ''075'', ''076'', ''077'', ''078'', ''079'',
      ''080'', ''081'', ''082'', ''083'', ''084'', ''085'', ''086'', ''087'', ''088'', ''089'',
      ''090'', ''091'', ''092'', ''093'', ''094'', ''095'', ''096'', ''097'', ''098'', ''099'',
      ''100'', ''101'', ''102'', ''103'', ''104'', ''105'', ''106'', ''107'', ''108'', ''109'',
      ''200'', ''201'', ''202'', ''203'', ''204'', ''205'', ''206'', ''207'', ''208'', ''209'',
      ''300'', ''301'', ''302'', ''303'', ''304'', ''305'', ''306'', ''307'', ''308'', ''309'',
      ''380'', ''383'', ''385'', ''387'', ''400'', ''401'', ''402'', ''403'', ''450'', ''451'',
      ''452'', ''453'', ''454'', ''455'', ''456'', ''457'', ''458'', ''459'', ''460'', ''461'',
      ''462'', ''463'', ''464'', ''465'', ''466'', ''467'', ''468'', ''469'', ''470'', ''471'',
      ''474'', ''475'', ''476'', ''477'', ''478'', ''479'', ''480'', ''481'', ''482'', ''484'',
      ''485'', ''486'', ''487'', ''488'', ''489'', ''490'', ''491'', ''492'', ''493'', ''494'',
      ''495'', ''496'', ''497'', ''498'', ''499'', ''500'', ''501'', ''502'', ''503'', ''504'',
      ''505'', ''506'', ''507'', ''508'', ''509'', ''520'', ''521'', ''528'', ''529'', ''530'',
      ''531'', ''535'', ''539'', ''540'', ''541'', ''542'', ''543'', ''544'', ''545'', ''546'',
      ''547'', ''548'', ''549'', ''560'', ''569'', ''570'', ''571'', ''572'', ''573'', ''574'',
      ''575'', ''576'', ''577'', ''578'', ''579'', ''590'', ''594'', ''599'', ''600'', ''601'',
      ''603'', ''604'', ''608'', ''609'', ''611'', ''613'', ''615'', ''616'', ''618'', ''619'',
      ''620'', ''621'', ''622'', ''624'', ''625'', ''626'', ''627'', ''628'', ''629'', ''640'',
      ''641'', ''642'', ''643'', ''644'', ''645'', ''646'', ''647'', ''648'', ''649'', ''690'',
      ''691'', ''692'', ''693'', ''694'', ''695'', ''696'', ''697'', ''698'', ''699'', ''700'',
      ''701'', ''702'', ''703'', ''704'', ''705'', ''706'', ''707'', ''708'', ''709'', ''729'',
      ''730'', ''731'', ''732'', ''733'', ''734'', ''735'', ''736'', ''737'', ''738'', ''739'',
      ''740'', ''741'', ''742'', ''743'', ''744'', ''745'', ''746'', ''750'', ''754'', ''755'',
      ''759'', ''760'', ''761'', ''762'', ''763'', ''764'', ''765'', ''766'', ''767'', ''768'',
      ''769'', ''770'', ''771'', ''773'', ''775'', ''777'', ''778'', ''779'', ''780'', ''784'',
      ''786'', ''789'', ''790'', ''800'', ''801'', ''802'', ''803'', ''804'', ''805'', ''806'',
      ''807'', ''808'', ''809'', ''840'', ''841'', ''842'', ''843'', ''844'', ''845'', ''846'',
      ''847'', ''848'', ''849'', ''850'', ''858'', ''859'', ''860'', ''865'', ''867'', ''868'',
      ''869'', ''870'', ''871'', ''872'', ''873'', ''874'', ''875'', ''876'', ''877'', ''878'',
      ''879'', ''880'', ''884'', ''885'', ''888'', ''890'', ''893'', ''896'', ''899'', ''900'',
      ''901'', ''902'', ''903'', ''904'', ''905'', ''906'', ''907'', ''908'', ''909'', ''930'',
      ''931'', ''932'', ''933'', ''934'', ''935'', ''936'', ''937'', ''938'', ''939'', ''940'',
      ''941'', ''942'', ''943'', ''944'', ''945'', ''946'', ''947'', ''948'', ''949'', ''950'',
      ''951'', ''955'', ''958'', ''977'', ''978'', ''979'', ''980'', ''981'', ''982'', ''990'',
      ''991'', ''992'', ''993'', ''994'', ''995'', ''996'', ''997'', ''998'', ''999'']"

definition EanService_cleanInput :: "string \<Rightarrow> string" where
  \<comment> \<open>\<^verbatim>\<open>input.replace(/[\s\-]/g, '')\<close>\<close>
  "EanService_cleanInput input = filter (\<lambda>c. \<not> (is_space c \<or> c = CHR ''-'')) input"

definition EanService_weighted_sum :: "nat option list \<Rightarrow> nat option" where
  \<comment> \<open>the loop of \<^verbatim>\<open>validateChecksum\<close> and \<^verbatim>\<open>calculateChecksum\<close> over the data digits:
      weight 3 where \<^verbatim>\<open>(digits.length - i) % 2 === 1\<close>, weight 1 elsewhere\<close>
  "EanService_weighted_sum digits =
     foldl (\<lambda>sumv i.
              (let weight = (if (length digits - i) mod 2 = 1 then 3 else 1)
               in nan_add sumv (map_option (\<lambda>d. d * weight) (digits ! i))))
       (Some 0) [0..<length digits]"

definition EanService_validateChecksum :: "string \<Rightarrow> nat \<Rightarrow> bool" where
  \<comment> \<open>\<^verbatim>\<open>digits[length - 1]\<close> is undefined outside the array, and equal to no number\<close>
  "EanService_validateChecksum code len =
     (let digits = map Number_char code;
          dataDigits = take (len - 1) digits;
          checkDigit = (if len - 1 < length digits then digits ! (len - 1) else None);
          calculatedCheck = map_option check_mod10 (EanService_weighted_sum dataDigits)
      in strict_eq checkDigit calculatedCheck)"

definition EanService_calculateChecksum :: "string \<Rightarrow> string" where
  "EanService_calculateChecksum dataDigits =
     num_toString (map_option check_mod10 (EanService_weighted_sum (map Number_char dataDigits)))"

definition EanService_validateEan13 :: "string \<Rightarrow> bool" where
  "EanService_validateEan13 ean =
     (if \<not> regex_digits_exact 13 ean then False else EanService_validateChecksum ean 13)"

definition EanService_validateUpcA :: "string \<Rightarrow> bool" where
  "EanService_validateUpcA upc =
     (if \<not> regex_digits_exact 12 upc then False else EanService_validateChecksum upc 12)"

definition EanService_validateEan8 :: "string \<Rightarrow> bool" where
  "EanService_validateEan8 ean =
     (if \<not> regex_digits_exact 8 ean then False else EanService_validateChecksum ean 8)"

definition EanService_validate :: "string \<Rightarrow> bool" where
  "EanService_validate input =
     (let cleaned = EanService_cleanInput input
      in if length cleaned = 13 then EanService_validateEan13 cleaned
         else if length cleaned = 12 then EanService_validateUpcA cleaned
         else if length cleaned = 8 then EanService_validateEan8 cleaned
         else False)"


definition EanService_formatEan13 :: "string \<Rightarrow> string" where
  "EanService_formatEan13 ean =
     (if length ean \<noteq> 13 then ean
      else substring ean 0 1 @ '' '' @ substring ean 1 7 @ '' '' @ substring ean 7 13)"

definition EanService_formatUpcA :: "string \<Rightarrow> string" where
  "EanService_formatUpcA upc =
     (if length upc \<noteq> 12 then upc
      else substring upc 0 1 @ '' '' @ substring upc 1 6 @ '' '' @ substring upc 6 11 @ '' '' @
           drop 11 upc)"

definition EanService_formatEan8 :: "string \<Rightarrow> string" where
  "EanService_formatEan8 ean =
     (if length ean \<noteq> 8 then ean else substring ean 0 4 @ '' '' @ drop 4 ean)"

definition EanService_generateEan13 :: "rng \<Rightarrow> string \<times> rng" where
  "EanService_generateEan13 g =
     (case getRandomElement EanService_COMMON_GS1_PREFIXES g of (prefix, g1) \<Rightarrow>
        (case generateRandomDigits 3 (Some 5) g1 of (manufacturer, g2) \<Rightarrow>
           (case generateRandomDigits 2 (Some 4) g2 of (product, g3) \<Rightarrow>
              (let totalLength = length prefix + length manufacturer + length product
               in case (if totalLength < 12
                        then (case generateRandomDigits (12 - totalLength) None g3 of
                                (extra, g4) \<Rightarrow> (prefix @ manufacturer @ product @ extra, g4))
                        else if 12 < totalLength
                        then (substring (prefix @ manufacturer @ product) 0 12, g3)
                        else (prefix @ manufacturer @ product, g3))
                  of (dataDigits, g5) \<Rightarrow>
                       (let checkDigit = EanService_calculateChecksum dataDigits;
                            ean13 = dataDigits @ checkDigit
                        in (EanService_formatEan13 ean13, g5))))))"

definition EanService_generateUpcA :: "rng \<Rightarrow> string \<times> rng" where
  "EanService_generateUpcA g =
     (case random_floor 10 g of (d, g1) \<Rightarrow>
        (case generateRandomDigits 5 None g1 of (manufacturer, g2) \<Rightarrow>
           (case generateRandomDigits 5 None g2 of (product, g3) \<Rightarrow>
              (let firstDigit = nat_toString d;
                   dataDigits = firstDigit @ manufacturer @ product;
                   checkDigit = EanService_calculateChecksum dataDigits;
                   upcA = dataDigits @ checkDigit
               in (EanService_formatUpcA upcA, g3)))))"

definition EanService_generateEan8 :: "rng \<Rightarrow> string \<times> rng" where
  "EanService_generateEan8 g =
     (case generateRandomDigits 2 (Some 3) g of (country, g1) \<Rightarrow>
        (case generateRandomDigits 2 (Some 3) g1 of (manufacturer, g2) \<Rightarrow>
           (case generateRandomDigits 1 (Some 2) g2 of (product, g3) \<Rightarrow>
              (let parts = country @ manufacturer @ product
               in case (if length parts < 7
                        then (case generateRandomDigits (7 - length parts) None g3 of
                                (extra, g4) \<Rightarrow> (parts @ extra, g4))
                        else if 7 < length parts then (substring parts 0 7, g3)
                        else (parts, g3))
                  of (dataDigits, g5) \<Rightarrow>
                       (let checkDigit = EanService_calculateChecksum dataDigits;
                            ean8 = dataDigits @ checkDigit
                        in (EanService_formatEan8 ean8, g5))))))"

definition EanService_generate :: "rng \<Rightarrow> string \<times> rng" where
  "EanService_generate g =
     (case Math_random g of (rand, g1) \<Rightarrow>
        if rand < 60 / 100 then EanService_generateEan13 g1
        else if rand < 85 / 100 then EanService_generateUpcA g1
        else EanService_generateEan8 g1)"

definition EanService_completeAsEan13 :: "string \<Rightarrow> rng \<Rightarrow> string \<times> rng" where
  "EanService_completeAsEan13 partial g =
     (let needed = 12 - int (length partial)
      in if needed \<le> 0
         then (let dataDigits = substring partial 0 12;
                   checkDigit = EanService_calculateChecksum dataDigits
               in (EanService_formatEan13 (dataDigits @ checkDigit), g))
         else (case generateRandomDigits (nat needed) None g of (completion, g') \<Rightarrow>
                 (let dataDigits = partial @ completion;
                      checkDigit = EanService_calculateChecksum dataDigits
                  in (EanService_formatEan13 (dataDigits @ checkDigit), g'))))"

definition EanService_completeAsUpcA :: "string \<Rightarrow> rng \<Rightarrow> string \<times> rng" where
  "EanService_completeAsUpcA partial g =
     (let needed = 11 - int (length partial)
      in if needed \<le> 0
         then (let dataDigits = substring partial 0 11;
                   checkDigit = EanService_calculateChecksum dataDigits
               in (EanService_formatUpcA (dataDigits @ checkDigit), g))
         else (case generateRandomDigits (nat needed) None g of (completion, g') \<Rightarrow>
                 (let dataDigits = partial @ completion;
                      checkDigit = EanService_calculateChecksum dataDigits
                  in (EanService_formatUpcA (dataDigits @ checkDigit), g'))))"

definition EanService_completeAsEan8 :: "string \<Rightarrow> rng \<Rightarrow> string \<times> rng" where
  "EanService_completeAsEan8 partial g =
     (let needed = 7 - int (length partial)
      in if needed \<le> 0
         then (let dataDigits = substring partial 0 7;
                   checkDigit = EanService_calculateChecksum dataDigits
               in (EanService_formatEan8 (dataDigits @ checkDigit), g))
         else (case generateRandomDigits (nat needed) None g of (completion, g') \<Rightarrow>
                 (let dataDigits = partial @ completion;
                      checkDigit = EanService_calculateChecksum dataDigits
                  in (EanService_formatEan8 (dataDigits @ checkDigit), g'))))"

datatype ean_target = TargetEan8 | TargetEan13 | TargetUpcA

definition EanService_complete_branch :: "string \<Rightarrow> ean_target option" where
  \<comment> \<open>which branch of the \<^verbatim>\<open>if\<close> chain of \<^verbatim>\<open>complete\<close> a cleaned input takes, the
      conditions being those of the source in their order; \<^term>\<open>None\<close> is the
      \<^verbatim>\<open>throw\<close> after the chain\<close>
  "EanService_complete_branch cleaned =
     (if 3 \<le> length cleaned \<and> length cleaned < 7 then Some TargetEan8
      else if 7 \<le> length cleaned \<and> length cleaned < 12 then Some TargetEan13
      else if 3 \<le> length cleaned \<and> length cleaned < 12 then Some TargetUpcA
      else None)"

definition EanService_complete :: "string \<Rightarrow> rng \<Rightarrow> (error + string) \<times> rng" where
  "EanService_complete partial g =
     (let cleaned = EanService_cleanInput partial
      in case EanService_complete_branch cleaned of
           Some TargetEan8 \<Rightarrow>
             (case EanService_completeAsEan8 cleaned g of (r, g') \<Rightarrow> (Inr r, g'))
         | Some TargetEan13 \<Rightarrow>
             (case EanService_completeAsEan13 cleaned g of (r, g') \<Rightarrow> (Inr r, g'))
         | Some TargetUpcA \<Rightarrow>
             (case EanService_completeAsUpcA cleaned g of (r, g') \<Rightarrow> (Inr r, g'))
         | None \<Rightarrow> (Inl CannotComplete, g))"

section \<open>ServiceFactory\<close>

datatype ServiceType = TCKN | VKN | IBAN | CREDIT_CARD | ISBN | EAN | IMEI

definition regex_digits_or_X_plus :: "string \<Rightarrow> bool" where
  \<comment> \<open>\<^verbatim>\<open>/^[\dX]+$/.test(s)\<close>\<close>
  "regex_digits_or_X_plus s \<longleftrightarrow> s \<noteq> [] \<and> list_all (\<lambda>c. is_digit c \<or> c = CHR ''X'') s"

definition ServiceFactory_creditCardPatterns :: "string list list" where
  \<comment> \<open>the nine patterns tested by \<^verbatim>\<open>detectPossibleServiceTypes\<close>\<close>
  "ServiceFactory_creditCardPatterns =
     [[''4''], [''5'', ''12345''], [''2'', ''234567''], [''3'', ''47''], [''6'', ''0'', ''1'', ''1''],
      [''6'', ''4'', ''456789''], [''6'', ''5''], [''3'', ''5'', ''2345678''], [''3'', ''0689'']]"

definition ServiceFactory_detectPossibleServiceTypes :: "string \<Rightarrow> ServiceType list" where
  "ServiceFactory_detectPossibleServiceTypes input =
     (let cleanInput = toUpperCase (remove_whitespace input)
      in if regex_TR_24_digits cleanInput \<or> startsWith cleanInput ''TR'' then [IBAN]
         else
           (let possibleServices1 =
                  (if regex_digits_or_X_plus cleanInput
                   then (if length cleanInput = 10 then [ISBN]
                         else if length cleanInput = 13
                         then (if startsWith cleanInput ''978'' \<or> startsWith cleanInput ''979''
                               then [ISBN] else [])
                         else [])
                   else [])
            in if \<not> regex_digits_plus cleanInput then possibleServices1
               else
                 (let possibleServices2 =
                        (if length cleanInput = 8 then possibleServices1 @ [EAN]
                         else if length cleanInput = 10
                         then (if VKN \<notin> set possibleServices1 then possibleServices1 @ [VKN]
                               else possibleServices1)
                         else if length cleanInput = 11 then possibleServices1 @ [TCKN]
                         else if length cleanInput = 12 then possibleServices1 @ [EAN]
                         else if length cleanInput = 13 then possibleServices1 @ [EAN]
                         else if length cleanInput = 15 then possibleServices1 @ [IMEI]
                         else possibleServices1)
                  in if 13 \<le> length cleanInput \<and> length cleanInput \<le> 19
                     then (if list_ex (\<lambda>pattern. regex_prefix pattern cleanInput)
                                ServiceFactory_creditCardPatterns
                           then possibleServices2 @ [CREDIT_CARD]
                           else possibleServices2)
                     else possibleServices2)))"

definition ServiceFactory_detectServiceType :: "string \<Rightarrow> ServiceType option" where
  "ServiceFactory_detectServiceType input =
     (let possibleServices = ServiceFactory_detectPossibleServiceTypes input
      in if length possibleServices = 1 then Some (possibleServices ! 0) else None)"

section \<open>The passes of the retry loops\<close>

text \<open>
  \<^verbatim>\<open>TcknService.generate\<close> repeats its \<^verbatim>\<open>do ... while\<close> body, and \<^verbatim>\<open>generateIsbn10\<close> and
  \<^verbatim>\<open>generateIsbn13\<close> call themselves again, until the drawn parts are accepted. One pass
  draws its parts from the random source and leaves the rest of the source to the next
  pass; the pass number \<open>n\<close> (from 0) is accepted when the loop would stop there.
\<close>

definition TcknService_generate_pass :: "rng \<Rightarrow> string \<times> rng" where
  \<comment> \<open>the body of the \<^verbatim>\<open>do ... while\<close>: the prefix it builds\<close>
  "TcknService_generate_pass g =
     (case random_floor 9 g of (d, g1) \<Rightarrow>
        (case random_digits 8 g1 of (ds, g2) \<Rightarrow> (nat_toString (d + 1) @ ds, g2)))"

definition TcknService_generate_accepts :: "nat \<Rightarrow> rng \<Rightarrow> bool" where
  "TcknService_generate_accepts n g \<longleftrightarrow>
     fst (TcknService_generate_pass (((\<lambda>h. snd (TcknService_generate_pass h)) ^^ n) g))
       \<notin> set TcknService_INVALID_PREFIXES"

definition IsbnService_generateIsbn10_pass :: "rng \<Rightarrow> string list \<times> rng" where
  \<comment> \<open>the group, the publisher and the title that one call draws\<close>
  "IsbnService_generateIsbn10_pass g =
     (case getRandomElement IsbnService_COMMON_GROUPS g of (grp, g1) \<Rightarrow>
        (case generateRandomDigits 2 (Some 4) g1 of (publisher, g2) \<Rightarrow>
           (case generateRandomDigits 3 (Some 5) g2 of (title, g3) \<Rightarrow>
              ([grp, publisher, title], g3))))"

definition IsbnService_generateIsbn10_accepts :: "nat \<Rightarrow> rng \<Rightarrow> bool" where
  "IsbnService_generateIsbn10_accepts n g \<longleftrightarrow>
     length (concat (fst (IsbnService_generateIsbn10_pass
       (((\<lambda>h. snd (IsbnService_generateIsbn10_pass h)) ^^ n) g)))) \<le> 9"

definition IsbnService_generateIsbn13_pass :: "rng \<Rightarrow> string list \<times> rng" where
  \<comment> \<open>the prefix, the group, the publisher and the title that one call draws\<close>
  "IsbnService_generateIsbn13_pass g =
     (case getRandomElement IsbnService_COMMON_PREFIXES_ISBN13 g of (prefix, g0) \<Rightarrow>
        (case getRandomElement IsbnService_COMMON_GROUPS g0 of (grp, g1) \<Rightarrow>
           (case generateRandomDigits 2 (Some 4) g1 of (publisher, g2) \<Rightarrow>
              (case generateRandomDigits 3 (Some 5) g2 of (title, g3) \<Rightarrow>
                 ([prefix, grp, publisher, title], g3)))))"

definition IsbnService_generateIsbn13_accepts :: "nat \<Rightarrow> rng \<Rightarrow> bool" where
  "IsbnService_generateIsbn13_accepts n g \<longleftrightarrow>
     length (concat (fst (IsbnService_generateIsbn13_pass
       (((\<lambda>h. snd (IsbnService_generateIsbn13_pass h)) ^^ n) g)))) \<le> 12"

definition IsbnService_generate_accepts :: "nat \<Rightarrow> rng \<Rightarrow> bool" where
  \<comment> \<open>\<^verbatim>\<open>generate\<close> first draws which of the two generators to call\<close>
  "IsbnService_generate_accepts n g \<longleftrightarrow>
     (case Math_random g of (x, g1) \<Rightarrow>
        if x < 7 / 10 then IsbnService_generateIsbn13_accepts n g1
        else IsbnService_generateIsbn10_accepts n g1)"

section \<open>The specification's formulas\<close>

text \<open>
  The check digits as the specification words them, over the list of the digits' values
  (position \<open>i\<close>, counted from 1, is \<open>ds ! (i - 1)\<close>). They are compared below with
  what the services compute.
\<close>

definition Tckn_spec_t1 :: "nat list \<Rightarrow> nat" where
  \<comment> \<open>the sum of the digits at positions 1, 3, 5, 7, 9\<close>
  "Tckn_spec_t1 ds = ds ! 0 + ds ! 2 + ds ! 4 + ds ! 6 + ds ! 8"

definition Tckn_spec_t2 :: "nat list \<Rightarrow> nat" where
  \<comment> \<open>the sum of the digits at positions 2, 4, 6, 8\<close>
  "Tckn_spec_t2 ds = ds ! 1 + ds ! 3 + ds ! 5 + ds ! 7"

definition Tckn_spec_digit10 :: "nat list \<Rightarrow> nat" where
  "Tckn_spec_digit10 ds = (10 - ((Tckn_spec_t1 ds * 3 + Tckn_spec_t2 ds) mod 10)) mod 10"

definition Tckn_spec_digit11 :: "nat list \<Rightarrow> nat" where
  "Tckn_spec_digit11 ds =
     (10 - (((Tckn_spec_t2 ds + Tckn_spec_digit10 ds) * 3 + Tckn_spec_t1 ds) mod 10)) mod 10"

definition Vkn_spec_q :: "nat list \<Rightarrow> nat \<Rightarrow> nat" where
  \<comment> \<open>the term \<open>q\<close> of position \<open>i\<close> (from 1)\<close>
  "Vkn_spec_q ds i =
     (let d = ds ! (i - 1); p = (d + 10 - i) mod 10
      in if p = 9 then 9 else (p * 2 ^ (10 - i)) mod 9)"

definition Vkn_spec_check_digit :: "nat list \<Rightarrow> nat" where
  "Vkn_spec_check_digit ds = (10 - ((\<Sum>i\<leftarrow>[1..<10]. Vkn_spec_q ds i) mod 10)) mod 10"

text \<open>
  The IBAN checksum as the specification words it: the first four characters are moved to
  the end, each letter counts as its two-digit code (A = 10, ..., Z = 35), and the decimal
  value of the result is taken modulo 97.
\<close>

definition Iban_spec_letter_code :: "char \<Rightarrow> nat" where
  "Iban_spec_letter_code c = 10 + length (takeWhile (\<lambda>x. x \<noteq> c) ''ABCDEFGHIJKLMNOPQRSTUVWXYZ'')"

definition Iban_spec_step :: "nat \<Rightarrow> char \<Rightarrow> nat" where
  "Iban_spec_step a c =
     (if is_upper c then 100 * a + Iban_spec_letter_code c else 10 * a + digit_val c)"

definition Iban_spec_value :: "string \<Rightarrow> nat" where
  "Iban_spec_value s = foldl Iban_spec_step 0 s"

definition Iban_spec_valid :: "string \<Rightarrow> bool" where
  "Iban_spec_valid c \<longleftrightarrow>
     regex_TR_24_digits c \<and> c ! 9 = CHR ''0'' \<and>
     Iban_spec_value (drop 4 c @ take 4 c) mod 97 = 1"

text \<open>
  The retail barcode check digit in the specification's words: the data digits carry the
  weights 3 and 1 alternately from the rightmost one, which has weight 3, and the check
  digit is (10 - (sum mod 10)) mod 10.
\<close>

fun Ean_spec_weighted :: "nat list \<Rightarrow> nat" where
  \<comment> \<open>the weighted sum of the data digits given from the rightmost to the leftmost\<close>
  "Ean_spec_weighted [] = 0"
| "Ean_spec_weighted [a] = 3 * a"
| "Ean_spec_weighted (a # b # r) = 3 * a + b + Ean_spec_weighted r"

definition Ean_spec_check_digit :: "nat list \<Rightarrow> nat" where
  "Ean_spec_check_digit ds = (10 - Ean_spec_weighted (rev ds) mod 10) mod 10"

section \<open>Digits, decimal numerals and fixed-length strings\<close>

lemma digit_lt10_cases: "n < 10 \<Longrightarrow> n \<in> {0, 1, 2, 3, 4, 5, 6, 7, 8, 9::nat}"
  by simp arith

lemma digit_char_props: "n < 10 \<Longrightarrow> is_digit (digit_char n) \<and> digit_val (digit_char n) = n"
  using digit_lt10_cases[of n] by (auto simp: digit_char_def is_digit_def digit_val_def)

lemma digit_val_lt10: "is_digit c \<Longrightarrow> digit_val c < 10"
  by (auto simp: is_digit_def digit_val_def)

lemma nat_toString_digit: "n < 10 \<Longrightarrow> nat_toString n = [digit_char n]"
  by (subst nat_toString.simps) simp

lemma parseInt_single: "parseInt [c] = (if is_digit c then Some (digit_val c) else None)"
  by (simp add: parseInt_def dec_val_def)

lemma length9D: "length s = 9 \<Longrightarrow> \<exists>a b c d e f g h i. s = [a, b, c, d, e, f, g, h, i]"
  by (simp add: numeral_eq_Suc length_Suc_conv) blast

lemma take9_digits:
  assumes "all_digits s" and "9 \<le> length s"
  shows "regex_digits_exact 9 (take 9 s)"
  using assms
  by (simp add: regex_digits_exact_def all_digits_def list_all_iff) (meson in_set_takeD)

lemma all_digits_append [simp]: "all_digits (a @ b) \<longleftrightarrow> all_digits a \<and> all_digits b"
  by (simp add: all_digits_def)

lemma all_digits_Nil [simp]: "all_digits []"
  by (simp add: all_digits_def)

lemma all_digits_Cons [simp]: "all_digits (c # s) \<longleftrightarrow> is_digit c \<and> all_digits s"
  by (simp add: all_digits_def)

lemma all_digits_take: "all_digits s \<Longrightarrow> all_digits (take n s)"
  by (induction s arbitrary: n) (auto simp: take_Cons split: nat.splits)

lemma all_digits_drop: "all_digits s \<Longrightarrow> all_digits (drop n s)"
  by (induction s arbitrary: n) (auto simp: drop_Cons split: nat.splits)

lemma all_digits_replicate [simp]: "all_digits (replicate n c) \<longleftrightarrow> n = 0 \<or> is_digit c"
  by (induction n) auto

lemma dec_val_Nil [simp]: "dec_val [] = 0"
  by (simp add: dec_val_def)

lemma dec_val_snoc [simp]: "dec_val (s @ [c]) = 10 * dec_val s + digit_val c"
  by (simp add: dec_val_def)

lemma dec_val_append: "dec_val (a @ b) = dec_val a * 10 ^ length b + dec_val b"
proof (induction b rule: rev_induct)
  case Nil
  then show ?case by simp
next
  case (snoc c b)
  have "dec_val (a @ b @ [c]) = 10 * dec_val (a @ b) + digit_val c"
    using dec_val_snoc[of "a @ b" c] by simp
  with snoc show ?case by (simp add: algebra_simps)
qed

lemma nat_toString_all_digits [simp]: "all_digits (nat_toString n)"
proof (induction n rule: nat_toString.induct)
  case (1 n)
  show ?case
  proof (cases "n < 10")
    case True
    then show ?thesis by (simp add: nat_toString_digit digit_char_props)
  next
    case False
    with 1 show ?thesis
      by (subst nat_toString.simps) (simp add: digit_char_props)
  qed
qed

lemma nat_toString_not_Nil [simp]: "nat_toString n \<noteq> []"
  by (subst nat_toString.simps) simp

lemma dec_val_nat_toString [simp]: "dec_val (nat_toString n) = n"
proof (induction n rule: nat_toString.induct)
  case (1 n)
  show ?case
  proof (cases "n < 10")
    case True
    then show ?thesis
      using dec_val_snoc[of "[]" "digit_char n"] by (simp add: nat_toString_digit digit_char_props)
  next
    case False
    with 1 show ?thesis
      by (subst nat_toString.simps) (simp add: digit_char_props)
  qed
qed

lemma nat_toString_two_digits:
  "10 \<le> n \<Longrightarrow> n < 100 \<Longrightarrow> nat_toString n = [digit_char (n div 10), digit_char (n mod 10)]"
  by (subst nat_toString.simps) (simp add: nat_toString_digit)

lemma parseInt_digits: "all_digits s \<Longrightarrow> s \<noteq> [] \<Longrightarrow> parseInt s = Some (dec_val s)"
  by (simp add: parseInt_def all_digits_def list_all_iff takeWhile_eq_all_conv[THEN iffD2])

lemma is_digit_not_upper: "is_digit c \<Longrightarrow> \<not> is_upper c"
  by (simp add: is_digit_def is_upper_def)

lemma is_digit_not_space: "is_digit c \<Longrightarrow> \<not> is_space c"
  by (auto simp: is_digit_def is_space_def)

lemma lower_codes: "x \<in> set ''abcdefghijklmnopqrstuvwxyz'' \<Longrightarrow> (97::nat) \<le> of_char x"
  by auto

lemma to_upper_not_lower:
  assumes "c \<notin> set ''abcdefghijklmnopqrstuvwxyz''"
  shows "to_upper c = c"
proof -
  have "length ''abcdefghijklmnopqrstuvwxyz'' = length ''ABCDEFGHIJKLMNOPQRSTUVWXYZ''"
    by simp
  then have "map_of (zip ''abcdefghijklmnopqrstuvwxyz'' ''ABCDEFGHIJKLMNOPQRSTUVWXYZ'') c = None"
    using assms by (rule map_of_zip_is_None[THEN iffD2])
  then show ?thesis
    by (simp only: to_upper_def option.case)
qed

lemma to_upper_digit: "is_digit c \<Longrightarrow> to_upper c = c"
proof (rule to_upper_not_lower)
  assume "is_digit c"
  then have "of_char c \<le> (57::nat)" by (simp add: is_digit_def)
  then show "c \<notin> set ''abcdefghijklmnopqrstuvwxyz''"
    using lower_codes[of c] by fastforce
qed

lemma toUpperCase_digits: "all_digits s \<Longrightarrow> toUpperCase s = s"
  by (induction s) (simp_all add: toUpperCase_def to_upper_digit)

lemma remove_whitespace_digits: "all_digits s \<Longrightarrow> remove_whitespace s = s"
  by (induction s) (simp_all add: remove_whitespace_def is_digit_not_space)

section \<open>The random source\<close>

lemma random_floor_less: "0 < n \<Longrightarrow> fst (random_floor n g) < n"
proof -
  assume n: "0 < n"
  define x where "x = Rep_unit_interval (g 0)"
  have x: "0 \<le> x" "x < 1"
    using Rep_unit_interval[of "g 0"] by (simp_all add: x_def)
  then have "x * real n < real n" using n by simp
  then have "\<lfloor>x * real n\<rfloor> < int n" by (simp add: floor_less_iff)
  moreover have "0 \<le> \<lfloor>x * real n\<rfloor>" using x by simp
  ultimately have "nat \<lfloor>x * real n\<rfloor> < n" by linarith
  then show ?thesis
    by (simp add: random_floor_def Math_random_def x_def)
qed

lemma random_digits_props:
  "length (fst (random_digits n g)) = n \<and> all_digits (fst (random_digits n g))"
proof (induction n arbitrary: g)
  case 0
  then show ?case by simp
next
  case (Suc n)
  obtain d g' where d: "random_floor 10 g = (d, g')" by (cases "random_floor 10 g")
  obtain ds g'' where ds: "random_digits n g' = (ds, g'')" by (cases "random_digits n g'")
  have "d < 10" using random_floor_less[of 10 g] d by simp
  then have "nat_toString d = [digit_char d]" "is_digit (digit_char d)"
    by (simp_all add: nat_toString_digit digit_char_props)
  with Suc[of g'] d ds show ?case by simp
qed

section \<open>TCKN: the check digits and validation\<close>

lemma Tckn_calc_spec:
  assumes "regex_digits_exact 9 p"
  shows "TcknService_calculateCheckDigits p =
           (Some (Tckn_spec_digit10 (map digit_val p)), Some (Tckn_spec_digit11 (map digit_val p)))"
proof -
  from assms obtain a b c d e f g h i where p: "p = [a, b, c, d, e, f, g, h, i]"
    using length9D[of p] by (auto simp: regex_digits_exact_def)
  with assms have dg: "is_digit a" "is_digit b" "is_digit c" "is_digit d" "is_digit e"
      "is_digit f" "is_digit g" "is_digit h" "is_digit i"
    by (simp_all add: regex_digits_exact_def all_digits_def)
  show ?thesis
    unfolding p TcknService_calculateCheckDigits_def
    by (simp add: dg parseInt_at_def parseInt_single nan_add_def Tckn_spec_digit10_def
        Tckn_spec_digit11_def Tckn_spec_t1_def Tckn_spec_t2_def Let_def)
qed

lemma Tckn_validate_iff:
  "TcknService_validate tckn \<longleftrightarrow>
     regex_digits_exact 11 tckn \<and> tckn ! 0 \<noteq> CHR ''0'' \<and>
     tckn \<notin> set TcknService_INVALID_PATTERNS \<and>
     digit_val (tckn ! 9) = Tckn_spec_digit10 (map digit_val (take 9 tckn)) \<and>
     digit_val (tckn ! 10) = Tckn_spec_digit11 (map digit_val (take 9 tckn))"
proof (cases "regex_digits_exact 11 tckn")
  case False
  then show ?thesis by (simp add: TcknService_validate_def)
next
  case True
  then have len: "length tckn = 11" and dig: "all_digits tckn"
    by (simp_all add: regex_digits_exact_def)
  have p9: "regex_digits_exact 9 (take 9 tckn)"
    using len dig by (simp add: take9_digits)
  have d9: "is_digit (tckn ! 9)" and d10: "is_digit (tckn ! 10)"
    using len dig by (simp_all add: all_digits_def list_all_length)
  show ?thesis
    using True len
    by (simp add: TcknService_validate_def substring_def Tckn_calc_spec[OF p9] parseInt_at_def
        parseInt_single d9 d10 strict_eq_def)
qed

lemma Tckn_complete_example: "TcknService_complete ''123456789'' = Inr ''12345678950''"
  by (simp add: TcknService_complete_def TcknService_validatePrefix_def regex_digits_exact_def
      all_digits_def is_digit_def TcknService_INVALID_PREFIXES_def
      TcknService_calculateCheckDigits_def parseInt_at_def parseInt_single digit_val_def
      nan_add_def num_toString_def nat_toString_digit digit_char_def)

text \<open>
  C5, as the code has it. \<^verbatim>\<open>TcknService.validate\<close> accepts a string exactly when it is
  11 digits, its first digit is not 0, it is not one of the denylisted patterns, and its
  10th and 11th digits are the check digits the specification's formulas give for the
  first nine: \<open>t1\<close> the sum of the digits at positions 1, 3, 5, 7, 9, \<open>t2\<close> the sum
  at positions 2, 4, 6, 8, digit 10 = (10 - ((t1 * 3 + t2) mod 10)) mod 10 and
  digit 11 = (10 - (((t2 + digit10) * 3 + t1) mod 10)) mod 10. The denylist has nine
  patterns. \<^verbatim>\<open>complete("123456789")\<close> gives \<^verbatim>\<open>"12345678950"\<close>.
\<close>

theorem TcknService_validate_spec:
  "length TcknService_INVALID_PATTERNS = 9 \<and>
   (TcknService_validate tckn \<longleftrightarrow>
      regex_digits_exact 11 tckn \<and> tckn ! 0 \<noteq> CHR ''0'' \<and>
      tckn \<notin> set TcknService_INVALID_PATTERNS \<and>
      digit_val (tckn ! 9) = Tckn_spec_digit10 (map digit_val (take 9 tckn)) \<and>
      digit_val (tckn ! 10) = Tckn_spec_digit11 (map digit_val (take 9 tckn))) \<and>
   TcknService_complete ''123456789'' = Inr ''12345678950''"
  using Tckn_validate_iff[of tckn] Tckn_complete_example
  by (simp add: TcknService_INVALID_PATTERNS_def)

theorem TcknService_validate_spec_witness:
  "TcknService_validate ''12345678950'' \<and> \<not> TcknService_validate ''11111111110''"
proof -
  have "TcknService_validate ''12345678950''"
    using TcknService_validate_spec[of "''12345678950''"]
    by (simp add: regex_digits_exact_def all_digits_def is_digit_def
        TcknService_INVALID_PATTERNS_def Tckn_spec_digit10_def Tckn_spec_digit11_def
        Tckn_spec_t1_def Tckn_spec_t2_def digit_val_def)
  moreover have "\<not> TcknService_validate ''11111111110''"
    using TcknService_validate_spec[of "''11111111110''"]
    by (simp add: TcknService_INVALID_PATTERNS_def)
  ultimately show ?thesis by simp
qed

text \<open>
  C5, as the claim words it, speaks of ten denylisted patterns.
  \<^verbatim>\<open>TcknService.INVALID_PATTERNS\<close> does not hold ten.
\<close>

theorem TcknService_denylist_counterexample:
  "length TcknService_INVALID_PATTERNS \<noteq> 10"
  by (simp add: TcknService_INVALID_PATTERNS_def)

section \<open>VKN: the check digit and validation\<close>

lemma Vkn_step_spec:
  assumes "regex_digits_exact 9 p" and "i < 9"
  shows "VknService_calculateCheckDigit_step p (Some a) i =
           Some (a + Vkn_spec_q (map digit_val p) (Suc i))"
proof -
  from assms have "i < length p" and "is_digit (p ! i)"
    by (simp_all add: regex_digits_exact_def all_digits_def list_all_length)
  then show ?thesis
    by (simp add: VknService_calculateCheckDigit_step_def parseInt_at_def parseInt_single
        Vkn_spec_q_def nan_add_def Let_def)
qed

lemma Vkn_fold_spec:
  assumes "regex_digits_exact 9 p"
  shows "\<forall>i \<in> set js. i < 9 \<Longrightarrow>
         foldl (VknService_calculateCheckDigit_step p) (Some a) js =
           Some (a + (\<Sum>i\<leftarrow>js. Vkn_spec_q (map digit_val p) (Suc i)))"
proof (induction js arbitrary: a)
  case Nil
  then show ?case by simp
next
  case (Cons j js)
  then show ?case
    by (simp add: Vkn_step_spec[OF assms] add.assoc)
qed

lemma Vkn_calc_spec:
  assumes "regex_digits_exact 9 p"
  shows "VknService_calculateCheckDigit p = Some (Vkn_spec_check_digit (map digit_val p))"
proof -
  have "(\<Sum>i\<leftarrow>[0..<9]. Vkn_spec_q (map digit_val p) (Suc i)) =
        (\<Sum>i\<leftarrow>[1..<10]. Vkn_spec_q (map digit_val p) i)"
  proof -
    have "map (\<lambda>i. Vkn_spec_q (map digit_val p) (Suc i)) [0..<9] =
          map (Vkn_spec_q (map digit_val p)) (map Suc [0..<9])"
      by simp
    also have "map Suc [0..<9] = [1..<10]"
      by (simp only: map_Suc_upt) simp
    finally show ?thesis by simp
  qed
  then show ?thesis
    by (simp add: VknService_calculateCheckDigit_def Vkn_fold_spec[OF assms]
        Vkn_spec_check_digit_def check_mod10_def)
qed

lemma Vkn_validate_iff:
  "VknService_validate vkn \<longleftrightarrow>
     regex_digits_exact 10 vkn \<and>
     digit_val (vkn ! 9) = Vkn_spec_check_digit (map digit_val (take 9 vkn))"
proof (cases "regex_digits_exact 10 vkn")
  case False
  then show ?thesis by (simp add: VknService_validate_def)
next
  case True
  then have len: "length vkn = 10" and dig: "all_digits vkn"
    by (simp_all add: regex_digits_exact_def)
  have p9: "regex_digits_exact 9 (take 9 vkn)"
    using len dig by (simp add: take9_digits)
  have d9: "is_digit (vkn ! 9)"
    using len dig by (simp_all add: all_digits_def list_all_length)
  show ?thesis
    using True len
    by (simp add: VknService_validate_def substring_def Vkn_calc_spec[OF p9] parseInt_at_def
        parseInt_single d9 strict_eq_def)
qed

lemma Vkn_example: "VknService_calculateCheckDigit ''123456789'' = Some 0"
  by (simp add: VknService_calculateCheckDigit_def VknService_calculateCheckDigit_step_def
      upt_rec parseInt_at_def parseInt_single
      is_digit_def digit_val_def nan_add_def check_mod10_def Let_def)

text \<open>
  C9. For a prefix of nine digits \<^verbatim>\<open>VknService.calculateCheckDigit\<close> returns the
  specification's check digit: with \<open>p = (d + 10 - i) mod 10\<close> for the digit \<open>d\<close> at
  position \<open>i\<close> (from 1), \<open>q = 9\<close> when \<open>p = 9\<close> and \<open>q = (p * 2^(10-i)) mod 9\<close>
  otherwise, it is (10 - ((sum of the q) mod 10)) mod 10. \<^verbatim>\<open>validate\<close> accepts a string
  exactly when it is ten digits and its last digit is that value for the first nine. The
  check digit of \<^verbatim>\<open>"123456789"\<close> is 0.
\<close>

theorem VknService_check_digit_spec:
  "(regex_digits_exact 9 prefix \<longrightarrow>
      VknService_calculateCheckDigit prefix = Some (Vkn_spec_check_digit (map digit_val prefix))) \<and>
   (VknService_validate vkn \<longleftrightarrow>
      regex_digits_exact 10 vkn \<and>
      digit_val (vkn ! 9) = Vkn_spec_check_digit (map digit_val (take 9 vkn))) \<and>
   VknService_calculateCheckDigit ''123456789'' = Some 0"
  using Vkn_calc_spec[of prefix] Vkn_validate_iff[of vkn] Vkn_example
  by simp

theorem VknService_check_digit_spec_witness:
  "regex_digits_exact 9 ''987654321'' \<and>
   VknService_calculateCheckDigit ''987654321'' =
     Some (Vkn_spec_check_digit (map digit_val ''987654321'')) \<and>
   VknService_validate ''1234567890''"
proof -
  have r: "regex_digits_exact 9 ''987654321''"
    by (simp add: regex_digits_exact_def all_digits_def is_digit_def)
  have "VknService_validate ''1234567890''"
    using VknService_check_digit_spec[of "''987654321''" "''1234567890''"]
    by (simp add: regex_digits_exact_def all_digits_def is_digit_def digit_val_def
        Vkn_spec_check_digit_def Vkn_spec_q_def upt_rec Let_def)
  with r show ?thesis
    using VknService_check_digit_spec[of "''987654321''" "''1234567890''"] by simp
qed

section \<open>IBAN: the remainder modulo 97\<close>

lemma mod97_step:
  "((a mod 97) * m + b) mod 97 = (a * m + b) mod (97::nat)"
  by (metis mod_add_left_eq mod_mult_left_eq)

lemma Iban_mod97_loop:
  "all_digits s \<Longrightarrow> r < 97 \<Longrightarrow>
         IbanService_calculateMod97_loop s i (Some r) =
           Some ((r * 10 ^ (length s - i) + dec_val (drop i s)) mod 97)"
proof (induction s i "Some r" arbitrary: r rule: IbanService_calculateMod97_loop.induct)
  case (1 s i)
  show ?case
  proof (cases "i < length s")
    case False
    with 1(3) show ?thesis
      by (subst IbanService_calculateMod97_loop.simps) simp
  next
    case True
    define chunk where "chunk = substring s i (i + 7)"
    define rest where "rest = drop (i + 7) s"
    have chunk: "chunk = take 7 (drop i s)"
      by (simp add: chunk_def substring_def)
    have split: "drop i s = chunk @ rest"
      unfolding chunk rest_def by (metis add.commute append_take_drop_id drop_drop)
    have dg: "all_digits chunk"
      unfolding chunk by (rule all_digits_take, rule all_digits_drop, rule 1(2))
    have lr: "length rest = length s - (i + 7)"
      by (simp add: rest_def)
    have lc: "length chunk + length rest = length s - i"
    proof -
      have "length (drop i s) = length (chunk @ rest)" by (simp only: split)
      then show ?thesis by simp
    qed
    define number where "number = r * 10 ^ length chunk + dec_val chunk"
    have pn: "parseInt (num_toString (Some r) @ chunk) = Some number"
      using dg by (simp add: num_toString_def parseInt_digits dec_val_append number_def)
    have "IbanService_calculateMod97_loop s i (Some r) =
          IbanService_calculateMod97_loop s (i + 7) (Some (number mod 97))"
      using True pn
      by (subst IbanService_calculateMod97_loop.simps) (simp add: chunk_def Let_def)
    also have "\<dots> = Some ((number mod 97 * 10 ^ (length s - (i + 7)) + dec_val (drop (i + 7) s)) mod 97)"
      using 1(1)[OF True chunk_def refl _ 1(2), of "number mod 97"] pn
      by (simp add: chunk_def)
    also have "(number mod 97 * 10 ^ (length s - (i + 7)) + dec_val (drop (i + 7) s)) mod 97 =
               (number * 10 ^ length rest + dec_val rest) mod 97"
      by (simp add: mod97_step lr rest_def)
    also have "number * 10 ^ length rest + dec_val rest =
               r * 10 ^ (length s - i) + dec_val (drop i s)"
      unfolding split dec_val_append[of chunk rest] number_def lc[symmetric]
      by (simp add: algebra_simps power_add)
    finally show ?thesis .
  qed
qed

lemma Iban_calculateMod97:
  "all_digits s \<Longrightarrow> IbanService_calculateMod97 s = Some (dec_val s mod 97)"
  by (simp add: IbanService_calculateMod97_def Iban_mod97_loop)

lemma convert_digits: "all_digits s \<Longrightarrow> IbanService_convertLettersToNumbers s = s"
  by (induction s) (simp_all add: IbanService_convertLettersToNumbers_def is_digit_not_upper)

lemma convert_append:
  "IbanService_convertLettersToNumbers (a @ b) =
     IbanService_convertLettersToNumbers a @ IbanService_convertLettersToNumbers b"
  by (simp add: IbanService_convertLettersToNumbers_def)

lemma convert_TR: "IbanService_convertLettersToNumbers ''TR'' = ''2927''"
  by (simp add: IbanService_convertLettersToNumbers_def is_upper_def nat_toString_two_digits
      digit_char_def)

lemma spec_fold_digits:
  "all_digits s \<Longrightarrow> foldl Iban_spec_step a s = foldl (\<lambda>a c. 10 * a + digit_val c) a s"
  by (induction s arbitrary: a) (simp_all add: is_digit_not_upper Iban_spec_step_def)

lemma spec_fold_TR: "foldl Iban_spec_step a ''TR'' = 100 * (100 * a + 29) + 27"
  by (simp add: Iban_spec_step_def is_upper_def Iban_spec_letter_code_def)

lemma dec_fold_append:
  "foldl (\<lambda>a c. 10 * a + digit_val c) a s = a * 10 ^ length s + dec_val s"
proof (induction s rule: rev_induct)
  case Nil
  then show ?case by simp
next
  case (snoc c s)
  then show ?case by (simp add: algebra_simps)
qed

lemma dec_val_2927: "dec_val (x @ ''2927'') = dec_val x * 10000 + 2927"
proof -
  have "dec_val ''2927'' = 2927"
    by (simp add: dec_val_def digit_val_def)
  then show ?thesis
    using dec_val_append[of x "''2927''"] by simp
qed

lemma convert_rearranged:
  assumes "all_digits x" and "all_digits y"
  shows "IbanService_convertLettersToNumbers (x @ ''TR'' @ y) = x @ ''2927'' @ y"
  using assms by (simp only: convert_append convert_digits convert_TR)

lemma Iban_value_rearranged:
  assumes "all_digits x" and "all_digits y"
  shows "dec_val (IbanService_convertLettersToNumbers (x @ ''TR'' @ y)) =
         Iban_spec_value (x @ ''TR'' @ y)"
proof -
  have "dec_val ((x @ ''2927'') @ y) = dec_val (x @ ''2927'') * 10 ^ length y + dec_val y"
    by (rule dec_val_append)
  then have l: "dec_val (IbanService_convertLettersToNumbers (x @ ''TR'' @ y)) =
             (dec_val x * 10000 + 2927) * 10 ^ length y + dec_val y"
    by (simp only: convert_rearranged[OF assms] dec_val_2927 append_assoc)
  have "Iban_spec_value (x @ ''TR'' @ y) =
        foldl Iban_spec_step (foldl Iban_spec_step (foldl Iban_spec_step 0 x) ''TR'') y"
    by (simp only: Iban_spec_value_def foldl_append)
  also have "\<dots> = foldl (\<lambda>a c. 10 * a + digit_val c) (100 * (100 * dec_val x + 29) + 27) y"
    by (simp only: spec_fold_digits[OF assms(1)] spec_fold_digits[OF assms(2)] spec_fold_TR
        dec_val_def)
  also have "\<dots> = (100 * (100 * dec_val x + 29) + 27) * 10 ^ length y + dec_val y"
    by (rule dec_fold_append)
  finally show ?thesis using l by simp
qed

lemma Iban_validateChecksum_spec:
  assumes "regex_TR_24_digits c"
  shows "IbanService_validateChecksum c \<longleftrightarrow> Iban_spec_value (drop 4 c @ take 4 c) mod 97 = 1"
proof -
  define ds where "ds = drop 2 c"
  have c: "c = ''TR'' @ ds" and len: "length ds = 24" and dg: "all_digits ds"
    using assms append_take_drop_id[of 2 c]
    by (simp_all add: regex_TR_24_digits_def regex_digits_exact_def ds_def)
  define x where "x = drop 2 ds"
  define y where "y = take 2 ds"
  have x: "all_digits x" and y: "all_digits y"
    using dg by (simp_all add: x_def y_def all_digits_take all_digits_drop)
  have r: "drop 4 c @ take 4 c = x @ ''TR'' @ y"
    using len by (simp add: c x_def y_def)
  have r': "drop 4 c @ substring c 0 4 = x @ ''TR'' @ y"
    using r by (simp add: substring_def)
  have "all_digits (x @ ''2927'' @ y)"
    using x y by (simp add: is_digit_def)
  then have dn: "all_digits (IbanService_convertLettersToNumbers (x @ ''TR'' @ y))"
    by (simp only: convert_rearranged[OF x y])
  have "IbanService_validateChecksum c \<longleftrightarrow>
        strict_eq (IbanService_calculateMod97 (IbanService_convertLettersToNumbers (x @ ''TR'' @ y))) (Some 1)"
    by (simp only: IbanService_validateChecksum_def Let_def r')
  also have "\<dots> \<longleftrightarrow> Iban_spec_value (x @ ''TR'' @ y) mod 97 = 1"
    by (simp only: Iban_calculateMod97[OF dn] Iban_value_rearranged[OF x y])
       (simp add: strict_eq_def)
  finally show ?thesis by (simp only: r)
qed

lemma Iban_validate_iff:
  "IbanService_validate v \<longleftrightarrow> Iban_spec_valid (toUpperCase (remove_whitespace v))"
proof -
  define c where "c = toUpperCase (remove_whitespace v)"
  show ?thesis
  proof (cases "regex_TR_24_digits c")
    case False
    then have "\<not> Iban_spec_valid c" by (simp add: Iban_spec_valid_def)
    moreover have "\<not> IbanService_validate v"
      using False by (simp add: IbanService_validate_def c_def[symmetric] Let_def)
    ultimately show ?thesis by (simp add: c_def)
  next
    case True
    then have len: "length c = 26"
      by (auto simp: regex_TR_24_digits_def regex_digits_exact_def)
    have "take 2 c = ''TR''"
      using True by (simp add: regex_TR_24_digits_def)
    then have st: "startsWith c ''TR''"
      by (simp add: startsWith_def numeral_2_eq_2)
    have "drop 9 c = c ! 9 # drop (Suc 9) c"
      using len by (intro Cons_nth_drop_Suc[symmetric]) simp
    then have sub: "substring c 9 10 = [c ! 9]"
      by (simp add: substring_def)
    have "IbanService_validate v \<longleftrightarrow>
            (if substring c 9 10 \<noteq> ''0'' then False else IbanService_validateChecksum c)"
      using True len st by (simp add: IbanService_validate_def c_def[symmetric] Let_def)
    also have "\<dots> \<longleftrightarrow> c ! 9 = CHR ''0'' \<and> IbanService_validateChecksum c"
      by (simp add: sub)
    also have "\<dots> \<longleftrightarrow> Iban_spec_valid c"
      using True Iban_validateChecksum_spec[OF True] by (simp add: Iban_spec_valid_def)
    finally show ?thesis by (simp only: c_def)
  qed
qed

lemma Iban_example: "IbanService_validate ''TR320010009999901234567890''"
  unfolding Iban_validate_iff
  by (simp add: toUpperCase_def remove_whitespace_def is_space_def to_upper_def
      Iban_spec_valid_def regex_TR_24_digits_def regex_digits_exact_def all_digits_def
      is_digit_def Iban_spec_value_def Iban_spec_step_def is_upper_def
      Iban_spec_letter_code_def digit_val_def)

text \<open>
  C4. \<^verbatim>\<open>IbanService.validate\<close> returns true exactly when the input, without its
  whitespace and in upper case, is \<^verbatim>\<open>TR\<close> followed by 24 digits, has \<^verbatim>\<open>0\<close> at
  position 10 (index 9) and, with its first four characters moved to the end and each letter
  read as its code (A = 10, ..., Z = 35), has a decimal value whose remainder modulo 97
  is 1. The remainder \<^verbatim>\<open>calculateMod97\<close> computes in chunks of seven digits is the
  remainder of the whole decimal value. \<^verbatim>\<open>validate("TR320010009999901234567890")\<close>
  is true.
\<close>

theorem IbanService_validate_spec:
  "(IbanService_validate v \<longleftrightarrow> Iban_spec_valid (toUpperCase (remove_whitespace v))) \<and>
   (all_digits s \<longrightarrow> IbanService_calculateMod97 s = Some (dec_val s mod 97)) \<and>
   IbanService_validate ''TR320010009999901234567890''"
  using Iban_validate_iff[of v] Iban_calculateMod97[of s] Iban_example
  by simp

theorem IbanService_validate_spec_witness:
  "all_digits ''1234567890123'' \<and>
   IbanService_calculateMod97 ''1234567890123'' = Some (dec_val ''1234567890123'' mod 97) \<and>
   Iban_spec_valid (toUpperCase (remove_whitespace ''tr32 0010 0099 9990 1234 5678 90''))"
proof -
  have d: "all_digits ''1234567890123''"
    by (simp add: all_digits_def is_digit_def)
  have e: "toUpperCase (remove_whitespace ''tr32 0010 0099 9990 1234 5678 90'') =
           toUpperCase (remove_whitespace ''TR320010009999901234567890'')"
    by (simp add: toUpperCase_def remove_whitespace_def is_space_def to_upper_def)
  note t = IbanService_validate_spec[of "''TR320010009999901234567890''" "''1234567890123''"]
  from t have v: "Iban_spec_valid (toUpperCase (remove_whitespace ''TR320010009999901234567890''))"
    by blast
  from t d have m: "IbanService_calculateMod97 ''1234567890123'' =
      Some (dec_val ''1234567890123'' mod 97)"
    by blast
  from v e have "Iban_spec_valid (toUpperCase (remove_whitespace ''tr32 0010 0099 9990 1234 5678 90''))"
    by (simp only:)
  with d m show ?thesis by blast
qed

section \<open>Detection: the IBAN prefix\<close>

lemma detect_TR:
  "startsWith (toUpperCase (remove_whitespace input)) ''TR'' \<Longrightarrow>
   ServiceFactory_detectPossibleServiceTypes input = [IBAN]"
  by (simp add: ServiceFactory_detectPossibleServiceTypes_def Let_def)

lemma detect_example:
  "ServiceFactory_detectPossibleServiceTypes ''TR5500010085118102514836'' = [IBAN]"
  by (rule detect_TR)
     (simp add: startsWith_def toUpperCase_def remove_whitespace_def is_space_def to_upper_def)

text \<open>
  C7. Whenever the input, without its whitespace and in upper case, starts with \<^verbatim>\<open>TR\<close>,
  \<^verbatim>\<open>detectPossibleServiceTypes\<close> returns exactly \<^verbatim>\<open>[IBAN]\<close>: no other format is
  looked at. \<^verbatim>\<open>"TR5500010085118102514836"\<close>, which is not 26 characters long, gives
  \<^verbatim>\<open>[IBAN]\<close>.
\<close>

theorem ServiceFactory_detect_IBAN_precedence:
  "(startsWith (toUpperCase (remove_whitespace input)) ''TR'' \<longrightarrow>
      ServiceFactory_detectPossibleServiceTypes input = [IBAN]) \<and>
   ServiceFactory_detectPossibleServiceTypes ''TR5500010085118102514836'' = [IBAN] \<and>
   length ''TR5500010085118102514836'' \<noteq> 26"
  using detect_TR[of input] detect_example by simp

theorem ServiceFactory_detect_IBAN_precedence_witness:
  "startsWith (toUpperCase (remove_whitespace ''tr 4111 1111 1111 1111'')) ''TR'' \<and>
   ServiceFactory_detectPossibleServiceTypes ''tr 4111 1111 1111 1111'' = [IBAN]"
proof -
  have s: "startsWith (toUpperCase (remove_whitespace ''tr 4111 1111 1111 1111'')) ''TR''"
    by (simp add: startsWith_def toUpperCase_def remove_whitespace_def is_space_def to_upper_def)
  with ServiceFactory_detect_IBAN_precedence[of "''tr 4111 1111 1111 1111''"]
  show ?thesis by blast
qed

section \<open>Validation of values that are not strings\<close>







section \<open>Random padding and the Luhn check digit\<close>

lemma random_digit_string:
  "\<exists>d < 10. fst (random_floor 10 g) = d \<and> nat_toString (fst (random_floor 10 g)) = [digit_char d]"
  using random_floor_less[of 10 g] by (simp add: nat_toString_digit)

lemma pad_random_eq:
  "pad_random n s g = (case random_digits (n - length s) g of (ds, g') \<Rightarrow> (s @ ds, g'))"
proof (induction n s g rule: pad_random.induct)
  case (1 n s g)
  show ?case
  proof (cases "length s < n")
    case False
    then show ?thesis by (subst pad_random.simps) simp
  next
    case True
    obtain d g' where d: "random_floor 10 g = (d, g')" by (cases "random_floor 10 g")
    have dl: "nat_toString d = [digit_char d]"
      using random_digit_string[of g] d by simp
    obtain k where k: "n - length s = Suc k" using True by (cases "n - length s") auto
    then have k': "n - length (s @ nat_toString d) = k" by (simp add: dl)
    have "pad_random n s g = pad_random n (s @ nat_toString d) g'"
      using True d by (subst pad_random.simps) simp
    also have "\<dots> = (case random_digits k g' of (ds, g'') \<Rightarrow> ((s @ nat_toString d) @ ds, g''))"
      using 1[OF True d[symmetric]] k' by simp
    also have "\<dots> = (case random_digits (Suc k) g of (ds, g'') \<Rightarrow> (s @ ds, g''))"
      using d by (simp add: split_def)
    finally show ?thesis by (simp only: k)
  qed
qed

lemma pad_random_props:
  assumes "pad_random n s g = (r, g')"
  shows "\<exists>ds. r = s @ ds \<and> length ds = n - length s \<and> all_digits ds"
proof -
  obtain ds g'' where ds: "random_digits (n - length s) g = (ds, g'')"
    by (cases "random_digits (n - length s) g")
  with assms have "r = s @ ds" by (simp add: pad_random_eq)
  moreover have "length ds = n - length s \<and> all_digits ds"
    using random_digits_props[of "n - length s" g] ds by simp
  ultimately show ?thesis by blast
qed

lemma luhn_loop_digits:
  "all_digits cs \<Longrightarrow> \<exists>t. \<forall>a. luhn_loop cs dbl (Some a) = Some (a + t)"
proof (induction cs arbitrary: dbl)
  case Nil
  then show ?case by simp
next
  case (Cons c cs)
  then have c: "is_digit c" and cs: "all_digits cs" by simp_all
  from Cons.IH[OF cs, of "\<not> dbl"] obtain t where
    t: "\<And>a. luhn_loop cs (\<not> dbl) (Some a) = Some (a + t)" by blast
  define e where "e = (if dbl then (if 9 < digit_val c * 2 then digit_val c * 2 - 9 else digit_val c * 2)
                       else digit_val c)"
  have "luhn_loop (c # cs) dbl (Some a) = Some (a + (e + t))" for a
  proof -
    have "luhn_loop (c # cs) dbl (Some a) = luhn_loop cs (\<not> dbl) (Some (a + e))"
      using c by (cases dbl) (simp_all add: parseInt_single nan_add_def e_def Let_def)
    also have "\<dots> = Some (a + e + t)" by (rule t)
    finally show ?thesis by (simp add: add.assoc)
  qed
  then show ?case by blast
qed

lemma check_mod10_less: "check_mod10 t < 10"
  by (simp add: check_mod10_def)

lemma check_mod10_sum: "(check_mod10 t + t) mod 10 = 0"
proof -
  define r where "r = t mod 10"
  have r: "r < 10" by (simp add: r_def)
  have a: "(check_mod10 t + t) mod 10 = (check_mod10 t + r) mod 10"
    by (simp add: r_def mod_add_right_eq)
  have b: "check_mod10 t = (10 - r) mod 10"
    by (simp add: check_mod10_def r_def)
  have "((10 - r) mod 10 + r) mod 10 = 0"
    using r by (cases "r = 0") simp_all
  with a b show ?thesis by simp
qed

lemma luhn_check_digit:
  assumes "all_digits p"
  shows "\<exists>c < 10.
           num_toString (map_option check_mod10 (luhn_loop (rev p) True (Some 0))) = [digit_char c] \<and>
           strict_eq (map_option (\<lambda>s. s mod 10) (luhn_loop (rev (p @ [digit_char c])) False (Some 0)))
             (Some 0)"
proof -
  have "all_digits (rev p)" using assms by (simp add: all_digits_def)
  from luhn_loop_digits[OF this, of True] obtain t where
    t: "\<And>a. luhn_loop (rev p) True (Some a) = Some (a + t)" by blast
  define c where "c = check_mod10 t"
  have c: "c < 10" by (simp add: c_def check_mod10_less)
  have 1: "num_toString (map_option check_mod10 (luhn_loop (rev p) True (Some 0))) = [digit_char c]"
    using t[of 0] c by (simp add: num_toString_def nat_toString_digit c_def)
  have "luhn_loop (rev (p @ [digit_char c])) False (Some 0) = Some (c + t)"
    using c t[of c] by (simp add: parseInt_single digit_char_props nan_add_def)
  then have 2: "strict_eq (map_option (\<lambda>s. s mod 10)
      (luhn_loop (rev (p @ [digit_char c])) False (Some 0))) (Some 0)"
    using check_mod10_sum[of t] by (simp add: strict_eq_def c_def)
  from c 1 2 show ?thesis by blast
qed

lemma CC_luhn:
  assumes "all_digits p"
  shows "\<exists>c < 10. CreditCardService_calculateLuhnCheckDigit p = [digit_char c] \<and>
           CreditCardService_validateLuhn (p @ [digit_char c])"
  using luhn_check_digit[OF assms]
  by (simp add: CreditCardService_calculateLuhnCheckDigit_def CreditCardService_validateLuhn_def)

lemma Imei_luhn:
  assumes "all_digits p"
  shows "\<exists>c < 10. ImeiService_calculateLuhnCheckDigit p = [digit_char c] \<and>
           ImeiService_validateLuhn (p @ [digit_char c])"
  using luhn_check_digit[OF assms]
  by (simp add: ImeiService_calculateLuhnCheckDigit_def ImeiService_validateLuhn_def)

section \<open>Credit card: formatting and completion\<close>

lemma filter_digits:
  "all_digits s \<Longrightarrow> \<forall>c. is_digit c \<longrightarrow> K c \<Longrightarrow> filter K s = s"
  by (induction s) simp_all

lemma filter_dropWhile_skip:
  "\<forall>c \<in> set t. Q c \<longrightarrow> \<not> K c \<Longrightarrow> filter K (dropWhile Q t) = filter K t"
  by (induction t) simp_all

lemma filter_trim:
  assumes "\<forall>c \<in> set t. is_space c \<longrightarrow> \<not> K c"
  shows "filter K (trim t) = filter K t"
proof -
  define u where "u = dropWhile is_space t"
  have su: "set u \<subseteq> set t"
    by (auto simp: u_def dest: set_dropWhileD)
  have "filter K (dropWhile is_space (rev u)) = filter K (rev u)"
    using assms su by (intro filter_dropWhile_skip) auto
  then have "filter K (trim t) = filter K u"
    by (simp add: trim_def u_def[symmetric] rev_filter[symmetric])
  also have "\<dots> = filter K t"
    unfolding u_def using assms by (rule filter_dropWhile_skip)
  finally show ?thesis .
qed

lemma replace_4digits_set:
  "set (replace_4digits_global s) \<subseteq> insert CHR '' '' (set s)"
  by (induction s rule: replace_4digits_global.induct) auto

lemma replace_4digits_filter:
  "all_digits s \<Longrightarrow> \<not> K CHR '' '' \<Longrightarrow> \<forall>c. is_digit c \<longrightarrow> K c \<Longrightarrow>
   filter K (replace_4digits_global s) = s"
  by (induction s rule: replace_4digits_global.induct) simp_all

lemma split_groups_filter:
  "all_digits s \<Longrightarrow> \<not> K CHR '' '' \<Longrightarrow> \<forall>c. is_digit c \<longrightarrow> K c \<Longrightarrow>
   filter K (split_groups ns s) = s"
proof (induction ns s rule: split_groups.induct)
  case (1 n m ns s)
  have "filter K (take n s) = take n s"
    using 1(2,4) by (intro filter_digits all_digits_take)
  moreover have "filter K (split_groups (m # ns) (drop n s)) = drop n s"
    using 1 by (simp add: all_digits_drop)
  ultimately show ?case using 1(3) by simp
qed (simp_all add: filter_digits)

lemma replace_digit_groups_filter:
  assumes "all_digits s" and "length s = sum_list ns" and "\<not> K CHR '' ''"
    and "\<forall>c. is_digit c \<longrightarrow> K c"
  shows "filter K (replace_digit_groups ns s) = s"
proof (cases s)
  case Nil
  then show ?thesis by simp
next
  case (Cons c cs)
  then have "replace_digit_groups ns s = split_groups ns s"
    using assms(1,2) by simp
  then show ?thesis
    using assms by (simp add: split_groups_filter)
qed

lemma formatCardNumber_filter:
  assumes "all_digits s" and "\<not> K CHR '' ''" and "\<forall>c. is_digit c \<longrightarrow> K c"
  shows "filter K (CreditCardService_formatCardNumber s) = s"
proof -
  have t: "filter K (trim (replace_4digits_global s)) = s"
  proof -
    have "\<forall>c \<in> set (replace_4digits_global s). is_space c \<longrightarrow> \<not> K c"
    proof (intro ballI impI)
      fix c assume c: "c \<in> set (replace_4digits_global s)" "is_space c"
      then have "c = CHR '' '' \<or> c \<in> set s" using replace_4digits_set[of s] by auto
      moreover have "c \<notin> set s"
        using assms(1) c(2) is_digit_not_space by (auto simp: all_digits_def list_all_iff)
      ultimately show "\<not> K c" using assms(2) by auto
    qed
    then show ?thesis
      using assms by (simp add: filter_trim replace_4digits_filter)
  qed
  show ?thesis
    unfolding CreditCardService_formatCardNumber_def
    using assms t by (simp add: replace_digit_groups_filter)
qed

lemma detect_visa:
  "CreditCardService_detectCardType (CHR ''4'' # rest) =
     Some \<lparr>patterns = [[''4'']], lengths = [13, 16, 19], name = ''Visa''\<rparr>"
  by (simp add: CreditCardService_detectCardType_def CreditCardService_CARD_TYPES_def)

lemma CC_complete_general:
  assumes det: "CreditCardService_detectCardType p = Some ct"
    and p: "p = CreditCardService_cleanInput input" "all_digits p" "4 \<le> length p"
      "length p < lengths ct ! 0"
  shows "\<exists>ds c. c < 10 \<and> all_digits ds \<and> length (p @ ds) = lengths ct ! 0 - 1 \<and>
           CreditCardService_validateLuhn (p @ ds @ [digit_char c]) \<and>
           fst (CreditCardService_complete input g) =
             Inr (CreditCardService_formatCardNumber (p @ ds @ [digit_char c]))"
proof -
  obtain completed g' where pr: "pad_random (lengths ct ! 0 - 1) p g = (completed, g')"
    by (cases "pad_random (lengths ct ! 0 - 1) p g")
  from pad_random_props[OF pr] obtain ds where
    ds: "completed = p @ ds" "length ds = lengths ct ! 0 - 1 - length p" "all_digits ds"
    by blast
  have ad: "all_digits completed" using ds p(2) by simp
  from CC_luhn[OF ad] obtain c where
    c: "c < 10" "CreditCardService_calculateLuhnCheckDigit completed = [digit_char c]"
      "CreditCardService_validateLuhn (completed @ [digit_char c])"
    by blast
  have ne: "p \<noteq> []" using p(3) by auto
  have "fst (CreditCardService_complete input g) =
        Inr (CreditCardService_formatCardNumber (completed @ [digit_char c]))"
    using det p(3,4) ne pr c(2)
    by (simp add: CreditCardService_complete_def p(1)[symmetric] Let_def)
  moreover have "length (p @ ds) = lengths ct ! 0 - 1"
    using ds(2) p(4) by simp
  ultimately show ?thesis
    using c(1,3) ds(1,3) by auto
qed

lemma CC_visa_complete:
  assumes "all_digits (CreditCardService_cleanInput input)"
    and "4 \<le> length (CreditCardService_cleanInput input)"
    and "length (CreditCardService_cleanInput input) \<le> 12"
    and "startsWith (CreditCardService_cleanInput input) ''4''"
  shows "\<exists>s. fst (CreditCardService_complete input g) = Inr s \<and>
           regex_digits_exact 13 (filter (\<lambda>c. c \<noteq> CHR '' '') s)"
proof -
  define p where "p = CreditCardService_cleanInput input"
  from assms(2,4) obtain rest where r: "p = CHR ''4'' # rest"
    by (cases p) (auto simp: p_def[symmetric] startsWith_def)
  have det: "CreditCardService_detectCardType p =
      Some \<lparr>patterns = [[''4'']], lengths = [13, 16, 19], name = ''Visa''\<rparr>"
    unfolding r by (rule detect_visa)
  from CC_complete_general[OF det p_def, of g] assms(1,2,3)
  obtain ds c where dc: "c < 10" "all_digits ds" "length (p @ ds) = 12"
      "fst (CreditCardService_complete input g) =
         Inr (CreditCardService_formatCardNumber (p @ ds @ [digit_char c]))"
    by (auto simp: p_def[symmetric])
  have ad: "all_digits (p @ ds @ [digit_char c])"
    using assms(1) dc(1,2) by (simp add: p_def[symmetric] digit_char_props)
  have "filter (\<lambda>c. c \<noteq> CHR '' '') (CreditCardService_formatCardNumber (p @ ds @ [digit_char c])) =
        p @ ds @ [digit_char c]"
    using ad by (rule formatCardNumber_filter) (auto simp: is_digit_def)
  moreover have "length (p @ ds @ [digit_char c]) = 13"
    using dc(3) by simp
  ultimately show ?thesis
    using dc(4) ad by (simp add: regex_digits_exact_def)
qed

lemma CC_visa_already_complete:
  assumes "13 \<le> length (CreditCardService_cleanInput input)"
    and "startsWith (CreditCardService_cleanInput input) ''4''"
  shows "fst (CreditCardService_complete input g) = Inl AlreadyComplete"
proof -
  define p where "p = CreditCardService_cleanInput input"
  from assms obtain rest where r: "p = CHR ''4'' # rest"
    by (cases p) (auto simp: p_def[symmetric] startsWith_def)
  have det: "CreditCardService_detectCardType p =
      Some \<lparr>patterns = [[''4'']], lengths = [13, 16, 19], name = ''Visa''\<rparr>"
    unfolding r by (rule detect_visa)
  show ?thesis
    using assms(1) det r
    by (simp add: CreditCardService_complete_def p_def[symmetric] Let_def)
qed

text \<open>
  C10. \<^verbatim>\<open>CreditCardService.complete\<close> targets the first length listed for the detected
  network. Visa lists 13, 16 and 19. For every input whose cleaned form is 4 to 12 digits
  starting with \<^verbatim>\<open>4\<close>, \<^verbatim>\<open>complete\<close> returns a string that is exactly 13 digits once
  its spaces are removed; for every input whose cleaned form is 13 characters starting with
  \<^verbatim>\<open>4\<close>, it throws the already-complete error.
\<close>

theorem CreditCardService_complete_first_length:
  "(all_digits (CreditCardService_cleanInput input) \<and>
    4 \<le> length (CreditCardService_cleanInput input) \<and>
    length (CreditCardService_cleanInput input) \<le> 12 \<and>
    startsWith (CreditCardService_cleanInput input) ''4'' \<longrightarrow>
      (\<exists>s. fst (CreditCardService_complete input g) = Inr s \<and>
           regex_digits_exact 13 (filter (\<lambda>c. c \<noteq> CHR '' '') s))) \<and>
   (length (CreditCardService_cleanInput input) = 13 \<and>
    startsWith (CreditCardService_cleanInput input) ''4'' \<longrightarrow>
      fst (CreditCardService_complete input g) = Inl AlreadyComplete) \<and>
   map_option lengths (map_of CreditCardService_CARD_TYPES ''visa'') = Some [13, 16, 19]"
  using CC_visa_complete[of input g] CC_visa_already_complete[of input g]
  by (simp add: CreditCardService_CARD_TYPES_def)

theorem CreditCardService_complete_first_length_witness:
  "(\<exists>s. fst (CreditCardService_complete ''4532-0151'' (\<lambda>i. unit_of (1 / 2))) = Inr s \<and>
        regex_digits_exact 13 (filter (\<lambda>c. c \<noteq> CHR '' '') s)) \<and>
   fst (CreditCardService_complete ''4532 0151 1283 0'' (\<lambda>i. unit_of (1 / 2))) = Inl AlreadyComplete"
proof -
  have a: "CreditCardService_cleanInput ''4532-0151'' = ''45320151''"
    by (simp add: CreditCardService_cleanInput_def is_space_def)
  have b: "CreditCardService_cleanInput ''4532 0151 1283 0'' = ''4532015112830''"
    by (simp add: CreditCardService_cleanInput_def is_space_def)
  have 1: "\<exists>s. fst (CreditCardService_complete ''4532-0151'' (\<lambda>i. unit_of (1 / 2))) = Inr s \<and>
        regex_digits_exact 13 (filter (\<lambda>c. c \<noteq> CHR '' '') s)"
    using CreditCardService_complete_first_length[of "''4532-0151''" "\<lambda>i. unit_of (1 / 2)"]
    by (simp add: a all_digits_def is_digit_def startsWith_def)
  have 2: "fst (CreditCardService_complete ''4532 0151 1283 0'' (\<lambda>i. unit_of (1 / 2))) =
      Inl AlreadyComplete"
    using CreditCardService_complete_first_length[of "''4532 0151 1283 0''" "\<lambda>i. unit_of (1 / 2)"]
    by (simp add: b startsWith_def)
  from 1 2 show ?thesis by blast
qed

section \<open>EAN: check digit, formatting and completion\<close>

lemma generateRandomDigits_None: "generateRandomDigits n None g = random_digits n g"
  by (simp add: generateRandomDigits_def)

lemma generateRandomDigits_exact:
  assumes "generateRandomDigits n None g = (ds, g')"
  shows "length ds = n \<and> all_digits ds"
  using assms random_digits_props[of n g] by (simp add: generateRandomDigits_None)

lemma generateRandomDigits_range:
  assumes "generateRandomDigits mn (Some mx) g = (ds, g')" and "mn \<le> mx" and "0 < mx"
  shows "mn \<le> length ds \<and> length ds \<le> mx \<and> all_digits ds"
proof -
  obtain k g1 where k: "random_floor (mx - mn + 1) g = (k, g1)"
    by (cases "random_floor (mx - mn + 1) g")
  have kl: "k < mx - mn + 1" using random_floor_less[of "mx - mn + 1" g] k by simp
  have "random_digits (k + mn) g1 = (ds, g')"
    using assms(1,3) k by (simp add: generateRandomDigits_def)
  then have "length ds = k + mn \<and> all_digits ds"
    using random_digits_props[of "k + mn" g1] by simp
  with kl assms(2) show ?thesis by auto
qed

lemma Number_char_digit: "is_digit c \<Longrightarrow> Number_char c = Some (digit_val c)"
  by (simp add: Number_char_def)

lemma Ean_fold_some:
  "\<forall>i \<in> set js. i < length ds \<and> ds ! i \<noteq> None \<Longrightarrow>
   \<exists>w. foldl (\<lambda>sumv i.
              (let weight = (if (length ds - i) mod 2 = 1 then 3 else 1)
               in nan_add sumv (map_option (\<lambda>d. d * weight) (ds ! i))))
         (Some a) js = Some w"
proof (induction js arbitrary: a)
  case Nil
  then show ?case by simp
next
  case (Cons j js)
  then obtain v where v: "ds ! j = Some v" by auto
  from Cons.prems have rest: "\<forall>i \<in> set js. i < length ds \<and> ds ! i \<noteq> None" by simp
  show ?case
    using Cons.IH[OF rest] by (simp add: v nan_add_def Let_def)
qed

lemma Ean_weighted_some:
  assumes "all_digits d"
  shows "\<exists>w. EanService_weighted_sum (map Number_char d) = Some w"
proof -
  have "\<forall>i \<in> set [0..<length (map Number_char d)].
          i < length (map Number_char d) \<and> map Number_char d ! i \<noteq> None"
    using assms by (auto simp: all_digits_def list_all_length Number_char_digit)
  from Ean_fold_some[OF this, of 0] show ?thesis
    by (simp only: EanService_weighted_sum_def)
qed

lemma Ean_checksum:
  assumes "all_digits d"
  shows "\<exists>k < 10. EanService_calculateChecksum d = [digit_char k] \<and>
           EanService_validateChecksum (d @ [digit_char k]) (Suc (length d))"
proof -
  from Ean_weighted_some[OF assms] obtain w where
    w: "EanService_weighted_sum (map Number_char d) = Some w" by blast
  define k where "k = check_mod10 w"
  have k: "k < 10" by (simp add: k_def check_mod10_less)
  have 1: "EanService_calculateChecksum d = [digit_char k]"
    using k by (simp add: EanService_calculateChecksum_def w num_toString_def k_def
        nat_toString_digit)
  have nk: "Number_char (digit_char k) = Some k"
    using k by (simp add: Number_char_digit digit_char_props)
  have "EanService_validateChecksum (d @ [digit_char k]) (Suc (length d)) =
        strict_eq (Some k) (Some (check_mod10 w))"
    by (simp add: EanService_validateChecksum_def Let_def w nk nth_append)
  then have 2: "EanService_validateChecksum (d @ [digit_char k]) (Suc (length d))"
    by (simp add: strict_eq_def k_def)
  from k 1 2 show ?thesis by blast
qed

lemma Ean_clean_digits: "all_digits s \<Longrightarrow> EanService_cleanInput s = s"
  unfolding EanService_cleanInput_def
  by (rule filter_digits) (auto simp: is_digit_not_space is_digit_def)

lemma Ean_clean_format8:
  assumes "regex_digits_exact 8 s"
  shows "EanService_cleanInput (EanService_formatEan8 s) = s"
proof -
  from assms have l: "length s = 8" and d: "all_digits s" by (simp_all add: regex_digits_exact_def)
  have "EanService_cleanInput (take 4 s) = take 4 s" "EanService_cleanInput (drop 4 s) = drop 4 s"
    using d by (simp_all add: Ean_clean_digits all_digits_take all_digits_drop)
  then have "EanService_cleanInput (take 4 s @ '' '' @ drop 4 s) = take 4 s @ drop 4 s"
    by (simp add: EanService_cleanInput_def is_space_def)
  then show ?thesis using l by (simp add: EanService_formatEan8_def substring_def)
qed

lemma Ean_clean_format13:
  assumes "regex_digits_exact 13 s"
  shows "EanService_cleanInput (EanService_formatEan13 s) = s"
proof -
  from assms have l: "length s = 13" and d: "all_digits s" by (simp_all add: regex_digits_exact_def)
  have "EanService_cleanInput (take 1 s) = take 1 s"
    "EanService_cleanInput (take 6 (drop 1 s)) = take 6 (drop 1 s)"
    "EanService_cleanInput (take 6 (drop 7 s)) = take 6 (drop 7 s)"
    using d by (simp_all add: Ean_clean_digits all_digits_take all_digits_drop)
  then have "EanService_cleanInput (take 1 s @ '' '' @ take 6 (drop 1 s) @ '' '' @ take 6 (drop 7 s)) =
             take 1 s @ take 6 (drop 1 s) @ take 6 (drop 7 s)"
    by (simp add: EanService_cleanInput_def is_space_def)
  moreover have "take 1 s @ take 6 (drop 1 s) @ take 6 (drop 7 s) = s"
  proof -
    have "take 6 (drop 7 s) = drop 7 s" using l by simp
    then have "take 6 (drop 1 s) @ take 6 (drop 7 s) = drop 1 s"
      using append_take_drop_id[of 6 "drop 1 s"] by simp
    then show ?thesis using append_take_drop_id[of 1 s] by simp
  qed
  ultimately show ?thesis using l by (simp add: EanService_formatEan13_def substring_def)
qed

lemma Ean_clean_format12:
  assumes "regex_digits_exact 12 s"
  shows "EanService_cleanInput (EanService_formatUpcA s) = s"
proof -
  from assms have l: "length s = 12" and d: "all_digits s" by (simp_all add: regex_digits_exact_def)
  have "EanService_cleanInput (take 1 s) = take 1 s"
    "EanService_cleanInput (take 5 (drop 1 s)) = take 5 (drop 1 s)"
    "EanService_cleanInput (take 5 (drop 6 s)) = take 5 (drop 6 s)"
    "EanService_cleanInput (drop 11 s) = drop 11 s"
    using d by (simp_all add: Ean_clean_digits all_digits_take all_digits_drop)
  then have "EanService_cleanInput
      (take 1 s @ '' '' @ take 5 (drop 1 s) @ '' '' @ take 5 (drop 6 s) @ '' '' @ drop 11 s) =
             take 1 s @ take 5 (drop 1 s) @ take 5 (drop 6 s) @ drop 11 s"
    by (simp add: EanService_cleanInput_def is_space_def)
  moreover have "take 1 s @ take 5 (drop 1 s) @ take 5 (drop 6 s) @ drop 11 s = s"
  proof -
    have "take 5 (drop 6 s) @ drop 11 s = drop 6 s"
      using append_take_drop_id[of 5 "drop 6 s"] by simp
    then have "take 5 (drop 1 s) @ take 5 (drop 6 s) @ drop 11 s = drop 1 s"
      using append_take_drop_id[of 5 "drop 1 s"] by simp
    then show ?thesis using append_take_drop_id[of 1 s] by simp
  qed
  ultimately show ?thesis using l by (simp add: EanService_formatUpcA_def substring_def)
qed

lemma Ean_completeAsEan8_pads:
  assumes "all_digits p" and "length p < 7"
  shows "\<exists>ds k. all_digits ds \<and> length (p @ ds) = 7 \<and> k < 10 \<and>
           EanService_calculateChecksum (p @ ds) = [digit_char k] \<and>
           fst (EanService_completeAsEan8 p g) = EanService_formatEan8 (p @ ds @ [digit_char k]) \<and>
           EanService_validateChecksum (p @ ds @ [digit_char k]) 8"
proof -
  obtain ds g' where r: "generateRandomDigits (7 - length p) None g = (ds, g')"
    by (cases "generateRandomDigits (7 - length p) None g")
  from generateRandomDigits_exact[OF r] have ds: "length ds = 7 - length p" "all_digits ds"
    by simp_all
  have ad: "all_digits (p @ ds)" using assms(1) ds(2) by simp
  from Ean_checksum[OF ad] obtain k where
    k: "k < 10" "EanService_calculateChecksum (p @ ds) = [digit_char k]"
      "EanService_validateChecksum ((p @ ds) @ [digit_char k]) (Suc (length (p @ ds)))"
    by blast
  have n: "nat (7 - int (length p)) = 7 - length p" by simp
  have len: "length (p @ ds) = 7" using assms(2) ds(1) by simp
  have "fst (EanService_completeAsEan8 p g) = EanService_formatEan8 (p @ ds @ [digit_char k])"
    using assms(2) r k(2) by (simp add: EanService_completeAsEan8_def Let_def n)
  moreover have "EanService_validateChecksum (p @ ds @ [digit_char k]) 8"
    using k(3) len by simp
  ultimately show ?thesis using ds(2) len k(1,2) by blast
qed

lemma Ean_completeAsEan13_pads:
  assumes "all_digits p" and "length p < 12"
  shows "\<exists>ds k. all_digits ds \<and> length (p @ ds) = 12 \<and> k < 10 \<and>
           EanService_calculateChecksum (p @ ds) = [digit_char k] \<and>
           fst (EanService_completeAsEan13 p g) = EanService_formatEan13 (p @ ds @ [digit_char k]) \<and>
           EanService_validateChecksum (p @ ds @ [digit_char k]) 13"
proof -
  obtain ds g' where r: "generateRandomDigits (12 - length p) None g = (ds, g')"
    by (cases "generateRandomDigits (12 - length p) None g")
  from generateRandomDigits_exact[OF r] have ds: "length ds = 12 - length p" "all_digits ds"
    by simp_all
  have ad: "all_digits (p @ ds)" using assms(1) ds(2) by simp
  from Ean_checksum[OF ad] obtain k where
    k: "k < 10" "EanService_calculateChecksum (p @ ds) = [digit_char k]"
      "EanService_validateChecksum ((p @ ds) @ [digit_char k]) (Suc (length (p @ ds)))"
    by blast
  have n: "nat (12 - int (length p)) = 12 - length p" by simp
  have len: "length (p @ ds) = 12" using assms(2) ds(1) by simp
  have "fst (EanService_completeAsEan13 p g) = EanService_formatEan13 (p @ ds @ [digit_char k])"
    using assms(2) r k(2) by (simp add: EanService_completeAsEan13_def Let_def n)
  moreover have "EanService_validateChecksum (p @ ds @ [digit_char k]) 13"
    using k(3) len by simp
  ultimately show ?thesis using ds(2) len k(1,2) by blast
qed

lemma Ean_completeAsUpcA_pads:
  assumes "all_digits p" and "length p < 11"
  shows "\<exists>ds k. all_digits ds \<and> length (p @ ds) = 11 \<and> k < 10 \<and>
           EanService_calculateChecksum (p @ ds) = [digit_char k] \<and>
           fst (EanService_completeAsUpcA p g) = EanService_formatUpcA (p @ ds @ [digit_char k]) \<and>
           EanService_validateChecksum (p @ ds @ [digit_char k]) 12"
proof -
  obtain ds g' where r: "generateRandomDigits (11 - length p) None g = (ds, g')"
    by (cases "generateRandomDigits (11 - length p) None g")
  from generateRandomDigits_exact[OF r] have ds: "length ds = 11 - length p" "all_digits ds"
    by simp_all
  have ad: "all_digits (p @ ds)" using assms(1) ds(2) by simp
  from Ean_checksum[OF ad] obtain k where
    k: "k < 10" "EanService_calculateChecksum (p @ ds) = [digit_char k]"
      "EanService_validateChecksum ((p @ ds) @ [digit_char k]) (Suc (length (p @ ds)))"
    by blast
  have n: "nat (11 - int (length p)) = 11 - length p" by simp
  have len: "length (p @ ds) = 11" using assms(2) ds(1) by simp
  have "fst (EanService_completeAsUpcA p g) = EanService_formatUpcA (p @ ds @ [digit_char k])"
    using assms(2) r k(2) by (simp add: EanService_completeAsUpcA_def Let_def n)
  moreover have "EanService_validateChecksum (p @ ds @ [digit_char k]) 12"
    using k(3) len by simp
  ultimately show ?thesis using ds(2) len k(1,2) by blast
qed

lemma startsWith_append: "startsWith (p @ r) p"
  by (simp add: startsWith_def)

lemma Ean_completeAsEan8_valid:
  assumes "all_digits p" and "length p < 7"
  shows "regex_digits_exact 8 (EanService_cleanInput (fst (EanService_completeAsEan8 p g))) \<and>
         startsWith (EanService_cleanInput (fst (EanService_completeAsEan8 p g))) p \<and>
         EanService_validate (fst (EanService_completeAsEan8 p g))"
proof -
  from Ean_completeAsEan8_pads[OF assms, of g] obtain ds k where
    h: "all_digits ds" "length (p @ ds) = 7" "k < 10"
      "fst (EanService_completeAsEan8 p g) = EanService_formatEan8 (p @ ds @ [digit_char k])"
      "EanService_validateChecksum (p @ ds @ [digit_char k]) 8"
    by blast
  have r: "regex_digits_exact 8 (p @ ds @ [digit_char k])"
    using assms(1) h(1,2,3) by (simp add: regex_digits_exact_def digit_char_props)
  have c: "EanService_cleanInput (fst (EanService_completeAsEan8 p g)) = p @ ds @ [digit_char k]"
    unfolding h(4) using r by (rule Ean_clean_format8)
  have "EanService_validate (fst (EanService_completeAsEan8 p g))"
    using r h(5) by (simp add: EanService_validate_def c Let_def regex_digits_exact_def
        EanService_validateEan8_def)
  then show ?thesis using r by (simp add: c startsWith_append)
qed

lemma Ean_completeAsEan13_valid:
  assumes "all_digits p" and "length p < 12"
  shows "regex_digits_exact 13 (EanService_cleanInput (fst (EanService_completeAsEan13 p g))) \<and>
         startsWith (EanService_cleanInput (fst (EanService_completeAsEan13 p g))) p \<and>
         EanService_validate (fst (EanService_completeAsEan13 p g))"
proof -
  from Ean_completeAsEan13_pads[OF assms, of g] obtain ds k where
    h: "all_digits ds" "length (p @ ds) = 12" "k < 10"
      "fst (EanService_completeAsEan13 p g) = EanService_formatEan13 (p @ ds @ [digit_char k])"
      "EanService_validateChecksum (p @ ds @ [digit_char k]) 13"
    by blast
  have r: "regex_digits_exact 13 (p @ ds @ [digit_char k])"
    using assms(1) h(1,2,3) by (simp add: regex_digits_exact_def digit_char_props)
  have c: "EanService_cleanInput (fst (EanService_completeAsEan13 p g)) = p @ ds @ [digit_char k]"
    unfolding h(4) using r by (rule Ean_clean_format13)
  have "EanService_validate (fst (EanService_completeAsEan13 p g))"
    using r h(5) by (simp add: EanService_validate_def c Let_def regex_digits_exact_def
        EanService_validateEan13_def)
  then show ?thesis using r by (simp add: c startsWith_append)
qed

lemma Ean_completeAsUpcA_valid:
  assumes "all_digits p" and "length p < 11"
  shows "regex_digits_exact 12 (EanService_cleanInput (fst (EanService_completeAsUpcA p g))) \<and>
         startsWith (EanService_cleanInput (fst (EanService_completeAsUpcA p g))) p \<and>
         EanService_validate (fst (EanService_completeAsUpcA p g))"
proof -
  from Ean_completeAsUpcA_pads[OF assms, of g] obtain ds k where
    h: "all_digits ds" "length (p @ ds) = 11" "k < 10"
      "fst (EanService_completeAsUpcA p g) = EanService_formatUpcA (p @ ds @ [digit_char k])"
      "EanService_validateChecksum (p @ ds @ [digit_char k]) 12"
    by blast
  have r: "regex_digits_exact 12 (p @ ds @ [digit_char k])"
    using assms(1) h(1,2,3) by (simp add: regex_digits_exact_def digit_char_props)
  have c: "EanService_cleanInput (fst (EanService_completeAsUpcA p g)) = p @ ds @ [digit_char k]"
    unfolding h(4) using r by (rule Ean_clean_format12)
  have "EanService_validate (fst (EanService_completeAsUpcA p g))"
    using r h(5) by (simp add: EanService_validate_def c Let_def regex_digits_exact_def
        EanService_validateUpcA_def)
  then show ?thesis using r by (simp add: c startsWith_append)
qed

lemma Ean_complete_routes:
  "fst (EanService_complete partial g) =
     (let cleaned = EanService_cleanInput partial
      in if 3 \<le> length cleaned \<and> length cleaned < 7
         then Inr (fst (EanService_completeAsEan8 cleaned g))
         else if 7 \<le> length cleaned \<and> length cleaned < 12
         then Inr (fst (EanService_completeAsEan13 cleaned g))
         else Inl CannotComplete)"
  by (auto simp: EanService_complete_def EanService_complete_branch_def Let_def split_def)

section \<open>IBAN: formatting, check digits, generation and completion\<close>

lemma remove_whitespace_append:
  "remove_whitespace (a @ b) = remove_whitespace a @ remove_whitespace b"
  by (simp add: remove_whitespace_def)

lemma remove_whitespace_idem: "remove_whitespace (remove_whitespace s) = remove_whitespace s"
  by (simp add: remove_whitespace_def)

lemma Iban_formatIban_loop_clean:
  "remove_whitespace (IbanService_formatIban_loop clean i formatted) =
     remove_whitespace formatted @ remove_whitespace (drop i clean)"
proof (induction clean i formatted rule: IbanService_formatIban_loop.induct)
  case (1 clean i formatted)
  show ?case
  proof (cases "i < length clean")
    case False
    then show ?thesis by (subst IbanService_formatIban_loop.simps) (simp add: remove_whitespace_def)
  next
    case True
    have sp: "remove_whitespace '' '' = []"
      by (simp add: remove_whitespace_def is_space_def)
    have d: "drop i clean = substring clean i (i + 4) @ drop (i + 4) clean"
      by (simp add: substring_def) (metis add.commute append_take_drop_id drop_drop)
    have "remove_whitespace (IbanService_formatIban_loop clean i formatted) =
          remove_whitespace ((if 0 < i then formatted @ '' '' else formatted) @ substring clean i (i + 4)) @
          remove_whitespace (drop (i + 4) clean)"
      using True 1[OF True] by (subst IbanService_formatIban_loop.simps) simp
    also have "\<dots> = remove_whitespace formatted @ remove_whitespace (substring clean i (i + 4)) @
          remove_whitespace (drop (i + 4) clean)"
      by (simp add: remove_whitespace_append sp)
    also have "\<dots> = remove_whitespace formatted @ remove_whitespace (drop i clean)"
      using arg_cong[OF d, of remove_whitespace] by (simp only: remove_whitespace_append)
    finally show ?thesis .
  qed
qed

lemma remove_whitespace_Nil: "remove_whitespace [] = []"
  by (simp add: remove_whitespace_def)

lemma Iban_formatIban_clean:
  "remove_whitespace (IbanService_formatIban x) = remove_whitespace x"
proof -
  have "remove_whitespace (IbanService_formatIban x) =
        remove_whitespace [] @ remove_whitespace (drop 0 (remove_whitespace x))"
    by (simp only: IbanService_formatIban_def Iban_formatIban_loop_clean)
  then show ?thesis
    by (simp add: remove_whitespace_idem remove_whitespace_Nil)
qed

lemma pad2_props:
  assumes "n < 100"
  shows "all_digits (padStart (nat_toString n) 2 CHR ''0'') \<and>
         length (padStart (nat_toString n) 2 CHR ''0'') = 2 \<and>
         dec_val (padStart (nat_toString n) 2 CHR ''0'') = n"
proof (cases "n < 10")
  case True
  then have "padStart (nat_toString n) 2 CHR ''0'' = [CHR ''0'', digit_char n]"
    by (simp add: nat_toString_digit padStart_def)
  then show ?thesis
    using True by (simp add: digit_char_props dec_val_def) (simp add: is_digit_def digit_val_def)
next
  case False
  then have "padStart (nat_toString n) 2 CHR ''0'' = [digit_char (n div 10), digit_char (n mod 10)]"
    using assms by (simp add: nat_toString_two_digits padStart_def)
  moreover have "n div 10 < 10" using assms by simp
  ultimately show ?thesis
    by (simp add: digit_char_props dec_val_def)
qed

lemma mod97_check: "(n + (98 - n mod 97)) mod 97 = (1::nat)"
proof -
  have "n mod 97 < 97" by simp
  then have "n + (98 - n mod 97) = 97 * (n div 97) + 98"
    using div_mult_mod_eq[of n 97] by linarith
  also have "\<dots> mod 97 = 1"
    by (simp add: mod_add_eq)
  finally show ?thesis .
qed

lemma Iban_checkDigits:
  assumes "all_digits D"
  shows "\<exists>cd. IbanService_calculateCheckDigits (''TR00'' @ D) = cd \<and> all_digits cd \<and>
           length cd = 2 \<and> dec_val (D @ ''2927'' @ cd) mod 97 = 1"
proof -
  define X where "X = dec_val (D @ ''2927'')"
  have z: "all_digits ''00''" by (simp add: is_digit_def)
  have cv: "IbanService_convertLettersToNumbers (D @ ''TR'' @ ''00'') = D @ ''2927'' @ ''00''"
    using assms z by (rule convert_rearranged)
  have ad: "all_digits (D @ ''2927'' @ ''00'')"
    using assms by (simp add: is_digit_def)
  have v0: "dec_val (D @ ''2927'' @ ''00'') = X * 100"
    using dec_val_append[of "D @ ''2927''" "''00''"]
    by (simp add: X_def dec_val_def digit_val_def)
  define r where "r = (X * 100) mod 97"
  have rem: "IbanService_calculateMod97 (D @ ''2927'' @ ''00'') = Some r"
    using Iban_calculateMod97[OF ad] by (simp only: v0 r_def)
  define cd where "cd = padStart (nat_toString (98 - r)) 2 CHR ''0''"
  have "98 - r < 100" by simp
  from pad2_props[OF this] have cdp: "all_digits cd" "length cd = 2" "dec_val cd = 98 - r"
    by (simp_all add: cd_def)
  have e: "drop 4 (''TR00'' @ D) = D" "substring (''TR00'' @ D) 0 2 = ''TR''"
    by (simp_all add: substring_def)
  have e2: "drop 4 (''TR'' @ ''00'' @ D) @ substring (''TR'' @ ''00'' @ D) 0 4 = D @ ''TR'' @ ''00''"
    by (simp add: substring_def)
  have "IbanService_calculateCheckDigits (''TR00'' @ D) = cd"
    unfolding IbanService_calculateCheckDigits_def Let_def e e2 cv rem
    by (simp add: num_toString_def cd_def)
  moreover have "dec_val (D @ ''2927'' @ cd) mod 97 = 1"
  proof -
    have "dec_val ((D @ ''2927'') @ cd) = X * 100 + (98 - r)"
      using dec_val_append[of "D @ ''2927''" cd] cdp by (simp add: X_def)
    then show ?thesis
      using mod97_check[of "X * 100"] by (simp add: r_def)
  qed
  ultimately show ?thesis using cdp by blast
qed

lemma to_upper_TR: "to_upper CHR ''T'' = CHR ''T''" "to_upper CHR ''R'' = CHR ''R''"
  by (simp_all add: to_upper_def)

lemma Iban_assemble_valid:
  assumes "regex_digits_exact 5 b" and "regex_digits_exact 16 a"
  shows "IbanService_validate (IbanService_assemble b a)"
proof -
  define D where "D = b @ ''0'' @ a"
  have b: "length b = 5" "all_digits b" and a: "length a = 16" "all_digits a"
    using assms by (simp_all add: regex_digits_exact_def)
  have D: "all_digits D" "length D = 22"
    using a b by (simp_all add: D_def is_digit_def)
  from Iban_checkDigits[OF D(1)] obtain cd where
    cd: "IbanService_calculateCheckDigits (''TR00'' @ D) = cd" "all_digits cd" "length cd = 2"
      "dec_val (D @ ''2927'' @ cd) mod 97 = 1"
    by blast
  define full where "full = ''TR'' @ cd @ D"
  have asm: "IbanService_assemble b a = IbanService_formatIban full"
    using cd(1) by (simp add: IbanService_assemble_def Let_def D_def full_def)
  have tr: "remove_whitespace ''TR'' = ''TR''"
    by (simp add: remove_whitespace_def is_space_def)
  have ns: "remove_whitespace full = full"
    by (simp only: full_def remove_whitespace_append tr remove_whitespace_digits[OF cd(2)]
        remove_whitespace_digits[OF D(1)])
  have up: "toUpperCase full = full"
    using toUpperCase_digits[of "cd @ D"] cd(2) D(1)
    by (simp add: full_def toUpperCase_def to_upper_TR)
  have clean: "toUpperCase (remove_whitespace (IbanService_assemble b a)) = full"
    by (simp only: asm Iban_formatIban_clean ns up)
  have rx: "regex_TR_24_digits full"
    using cd(2,3) D by (simp add: regex_TR_24_digits_def regex_digits_exact_def full_def)
  have n9: "full ! 9 = CHR ''0''"
  proof -
    have "full ! 9 = (cd @ D) ! 7" by (simp add: full_def)
    also have "\<dots> = D ! 5" using cd(3) by (simp add: nth_append)
    also have "\<dots> = CHR ''0''" using b(1) by (simp add: D_def nth_append)
    finally show ?thesis .
  qed
  have re: "drop 4 full @ take 4 full = D @ ''TR'' @ cd"
    using cd(3) by (simp add: full_def)
  have "Iban_spec_value (D @ ''TR'' @ cd) = dec_val (D @ ''2927'' @ cd)"
    using Iban_value_rearranged[OF D(1) cd(2)] convert_rearranged[OF D(1) cd(2)] by simp
  then have "Iban_spec_value (drop 4 full @ take 4 full) mod 97 = 1"
    using cd(4) by (simp only: re)
  with rx n9 have "Iban_spec_valid full" by (simp add: Iban_spec_valid_def)
  then show ?thesis by (simp only: Iban_validate_iff clean)
qed

lemma Iban_bank_codes: "b \<in> set IbanService_BANK_CODES \<Longrightarrow> regex_digits_exact 5 b"
  by (auto simp: IbanService_BANK_CODES_def regex_digits_exact_def is_digit_def)

lemma Iban_account_number:
  "regex_digits_exact 16 (fst (IbanService_generateRandomAccountNumber g))"
  using random_digits_props[of 16 g]
  by (simp add: IbanService_generateRandomAccountNumber_def regex_digits_exact_def)

lemma Iban_generate_valid: "IbanService_validate (fst (IbanService_generate g))"
proof -
  obtain k g1 where k: "random_floor (length IbanService_BANK_CODES) g = (k, g1)"
    by (cases "random_floor (length IbanService_BANK_CODES) g")
  have "k < length IbanService_BANK_CODES"
    using random_floor_less[of "length IbanService_BANK_CODES" g] k
    by (simp add: IbanService_BANK_CODES_def)
  then have b: "regex_digits_exact 5 (IbanService_BANK_CODES ! k)"
    by (intro Iban_bank_codes nth_mem)
  show ?thesis
    using Iban_assemble_valid[OF b Iban_account_number[of g1]]
    by (simp add: IbanService_generate_def k split_def)
qed

lemma Iban_complete_cases:
  "fst (IbanService_complete p g) =
     (let clean = toUpperCase (remove_whitespace p)
      in if \<not> startsWith clean ''TR''
         then (if clean = [] then IbanService_fallback
               else ''TR'' @ clean @ replicate (24 - length clean) CHR ''0'')
         else if length clean < 26
         then IbanService_assemble (IbanService_BANK_CODES ! 0)
                (fst (IbanService_generateRandomAccountNumber g))
         else IbanService_formatIban clean)"
  by (simp add: IbanService_complete_def Let_def split_def padEnd_def)

lemma Iban_complete_fresh_valid:
  assumes "startsWith (toUpperCase (remove_whitespace p)) ''TR''"
    and "length (toUpperCase (remove_whitespace p)) < 26"
  shows "IbanService_validate (fst (IbanService_complete p g)) \<and>
         fst (IbanService_complete p g) = fst (IbanService_complete ''TR'' g)"
proof -
  have b: "regex_digits_exact 5 (IbanService_BANK_CODES ! 0)"
    by (simp add: IbanService_BANK_CODES_def regex_digits_exact_def is_digit_def)
  have e: "fst (IbanService_complete p g) =
      IbanService_assemble (IbanService_BANK_CODES ! 0)
        (fst (IbanService_generateRandomAccountNumber g))"
    using assms by (simp add: Iban_complete_cases Let_def)
  have t: "toUpperCase (remove_whitespace ''TR'') = ''TR''"
    by (simp add: toUpperCase_def remove_whitespace_def is_space_def to_upper_def)
  have e': "fst (IbanService_complete ''TR'' g) =
      IbanService_assemble (IbanService_BANK_CODES ! 0)
        (fst (IbanService_generateRandomAccountNumber g))"
    by (simp add: Iban_complete_cases Let_def t startsWith_def)
  show ?thesis
    using Iban_assemble_valid[OF b Iban_account_number[of g]] e e' by simp
qed





section \<open>TCKN and VKN: completion and generation\<close>


lemma num_toString_digit: "n < 10 \<Longrightarrow> num_toString (Some n) = [digit_char n]"
  by (simp add: num_toString_def nat_toString_digit)

lemma Tckn_spec_digits_less: "Tckn_spec_digit10 ds < 10" "Tckn_spec_digit11 ds < 10"
  by (simp_all add: Tckn_spec_digit10_def Tckn_spec_digit11_def)

lemma Tckn_patterns_prefix:
  "s \<in> set TcknService_INVALID_PATTERNS \<Longrightarrow> take 9 s \<in> set TcknService_INVALID_PREFIXES"
  by (auto simp: TcknService_INVALID_PATTERNS_def TcknService_INVALID_PREFIXES_def)

lemma Tckn_complete_valid:
  assumes "TcknService_complete p = Inr s"
  shows "startsWith s p \<and> TcknService_validate s"
proof -
  from assms have vp: "TcknService_validatePrefix p = Inr ()"
    by (cases "TcknService_validatePrefix p") (simp_all add: TcknService_complete_def)
  then have p: "regex_digits_exact 9 p" "p ! 0 \<noteq> CHR ''0''" "p \<notin> set TcknService_INVALID_PREFIXES"
    by (simp_all add: TcknService_validatePrefix_def split: if_splits)
  define a where "a = Tckn_spec_digit10 (map digit_val p)"
  define b where "b = Tckn_spec_digit11 (map digit_val p)"
  have ab: "a < 10" "b < 10" by (simp_all add: a_def b_def Tckn_spec_digits_less)
  have s: "s = p @ [digit_char a, digit_char b]"
    using assms vp ab
    by (simp add: TcknService_complete_def Tckn_calc_spec[OF p(1)] a_def[symmetric] b_def[symmetric]
        num_toString_digit)
  have lp: "length p = 9" and dp: "all_digits p"
    using p(1) by (simp_all add: regex_digits_exact_def)
  have r: "regex_digits_exact 11 s"
    using lp dp ab by (simp add: s regex_digits_exact_def digit_char_props)
  have t9: "take 9 s = p" using lp by (simp add: s)
  have n0: "s ! 0 \<noteq> CHR ''0''" using p(2) lp by (simp add: s nth_append)
  have np: "s \<notin> set TcknService_INVALID_PATTERNS"
    using Tckn_patterns_prefix[of s] p(3) t9 by auto
  have d: "digit_val (s ! 9) = a" "digit_val (s ! 10) = b"
    using lp ab by (simp_all add: s nth_append digit_char_props)
  have "TcknService_validate s"
    using r n0 np d by (simp add: Tckn_validate_iff t9 a_def b_def)
  moreover have "startsWith s p" by (simp add: s startsWith_append)
  ultimately show ?thesis by simp
qed

lemma Tckn_draw_prefix:
  assumes "random_floor 9 g = (d, g1)" and "random_digits 8 g1 = (ds, g2)"
  shows "regex_digits_exact 9 (nat_toString (d + 1) @ ds) \<and>
         (nat_toString (d + 1) @ ds) ! 0 \<noteq> CHR ''0''"
proof -
  have "d < 9" using random_floor_less[of 9 g] assms(1) by simp
  then have d1: "d + 1 < 10" "d + 1 \<noteq> 0" by simp_all
  have ds: "length ds = 8" "all_digits ds"
    using random_digits_props[of 8 g1] assms(2) by simp_all
  have nz: "digit_char (d + 1) \<noteq> CHR ''0''"
  proof
    assume "digit_char (d + 1) = CHR ''0''"
    then have "digit_val (digit_char (d + 1)) = 0" by (simp add: digit_val_def)
    with d1 show False by (simp add: digit_char_props)
  qed
  show ?thesis
    using d1 ds nz by (simp add: nat_toString_digit regex_digits_exact_def digit_char_props)
qed

lemma Tckn_generate_valid:
  "TcknService_generate g = Some y \<Longrightarrow> \<exists>s. fst y = Inr s \<and> TcknService_validate s"
proof (induction rule: TcknService_generate.raw_induct[rotated 1, consumes 1])
  case (1 gen g y)
  obtain d g1 where d: "random_floor 9 g = (d, g1)" by (cases "random_floor 9 g")
  obtain ds g2 where ds: "random_digits 8 g1 = (ds, g2)" by (cases "random_digits 8 g1")
  define p where "p = nat_toString (d + 1) @ ds"
  show ?case
  proof (cases "p \<in> set TcknService_INVALID_PREFIXES")
    case True
    with 1(2) d ds have "gen g2 = Some y" by (simp add: p_def Let_def)
    then show ?thesis by (rule 1(1))
  next
    case False
    with 1(2) d ds have r: "fst y = TcknService_complete p" by (auto simp: p_def Let_def)
    from Tckn_draw_prefix[OF d ds] have "TcknService_validatePrefix p = Inr ()"
      using False by (simp add: TcknService_validatePrefix_def p_def)
    then obtain s where "TcknService_complete p = Inr s"
      by (simp add: TcknService_complete_def split_def)
    with Tckn_complete_valid[of p s] r show ?thesis by simp
  qed
qed

lemma Tckn_generate_returns:
  assumes "random_floor 9 g = (d, g1)" and "random_digits 8 g1 = (ds, g2)"
    and "nat_toString (d + 1) @ ds \<notin> set TcknService_INVALID_PREFIXES"
  shows "TcknService_generate g = Some (TcknService_complete (nat_toString (d + 1) @ ds), g2)"
  using assms by (subst TcknService_generate.simps) (simp add: Let_def)

lemma Vkn_complete_valid:
  assumes "VknService_complete p = Inr s"
  shows "startsWith s p \<and> VknService_validate s"
proof -
  from assms have p: "regex_digits_exact 9 p"
    by (simp add: VknService_complete_def VknService_validatePrefix_def split: if_splits)
  define a where "a = Vkn_spec_check_digit (map digit_val p)"
  have a: "a < 10" by (simp add: a_def Vkn_spec_check_digit_def)
  have s: "s = p @ [digit_char a]"
    using assms p a
    by (simp add: VknService_complete_def VknService_validatePrefix_def Vkn_calc_spec[OF p]
        a_def[symmetric] num_toString_digit)
  have lp: "length p = 9" and dp: "all_digits p"
    using p by (simp_all add: regex_digits_exact_def)
  have "regex_digits_exact 10 s"
    using lp dp a by (simp add: s regex_digits_exact_def digit_char_props)
  moreover have "take 9 s = p" using lp by (simp add: s)
  moreover have "digit_val (s ! 9) = a" using lp a by (simp add: s nth_append digit_char_props)
  ultimately have "VknService_validate s" by (simp add: Vkn_validate_iff a_def)
  then show ?thesis by (simp add: s startsWith_append)
qed

lemma Vkn_generate_valid: "\<exists>s. fst (VknService_generate g) = Inr s \<and> VknService_validate s"
proof -
  obtain p g' where p: "random_digits 9 g = (p, g')" by (cases "random_digits 9 g")
  have "regex_digits_exact 9 p"
    using random_digits_props[of 9 g] p by (simp add: regex_digits_exact_def)
  then obtain s where s: "VknService_complete p = Inr s"
    by (simp add: VknService_complete_def VknService_validatePrefix_def)
  with Vkn_complete_valid[OF s] p show ?thesis
    by (simp add: VknService_generate_def)
qed

section \<open>IMEI: completion and generation\<close>


lemma nat_toString_length: "\<forall>k. 0 < k \<and> n < 10 ^ k \<longrightarrow> length (nat_toString n) \<le> k"
proof (induction n rule: nat_toString.induct)
  case (1 n)
  show ?case
  proof (intro allI impI)
    fix k :: nat assume k: "0 < k \<and> n < 10 ^ k"
    show "length (nat_toString n) \<le> k"
    proof (cases "n < 10")
      case True
      with k show ?thesis by (simp add: nat_toString_digit)
    next
      case False
      obtain j where j: "k = Suc j" using k by (cases k) auto
      have "j \<noteq> 0" using False k j by (cases j) simp_all
      moreover have "n div 10 < 10 ^ j" using k j by (simp add: less_mult_imp_div_less mult.commute)
      ultimately have "length (nat_toString (n div 10)) \<le> j"
        using 1[OF False] by simp
      then show ?thesis
        using False j by (subst nat_toString.simps) simp
    qed
  qed
qed

lemma padStart_digits:
  assumes "0 < k" and "n < 10 ^ k"
  shows "regex_digits_exact k (padStart (nat_toString n) k CHR ''0'')"
proof -
  have "length (nat_toString n) \<le> k" using nat_toString_length assms by blast
  then show ?thesis
    by (simp add: regex_digits_exact_def padStart_def is_digit_def)
qed

lemma Imei_tacs_all: "list_all (regex_digits_exact 8) ImeiService_COMMON_TACS"
  by (simp add: ImeiService_COMMON_TACS_def regex_digits_exact_def is_digit_def)

lemma Imei_tacs: "t \<in> set ImeiService_COMMON_TACS \<Longrightarrow> regex_digits_exact 8 t"
  using Imei_tacs_all by (simp add: list_all_iff)

lemma Imei_clean_keeps_digits:
  "is_digit c \<Longrightarrow> \<not> (is_space c \<or> c = CHR ''-'' \<or> c = CHR ''.'')"
  by (auto simp: is_digit_def is_space_def)

lemma Imei_clean_format:
  assumes "all_digits s" and "length s = 15"
  shows "ImeiService_cleanInput (ImeiService_formatImei s) = s"
  unfolding ImeiService_cleanInput_def ImeiService_formatImei_def
  using assms Imei_clean_keeps_digits
  by (intro replace_digit_groups_filter) (simp_all add: is_space_def)

lemma Imei_finish:
  assumes "all_digits p" and "length p = 14"
  shows "ImeiService_validate (ImeiService_formatImei (p @ ImeiService_calculateLuhnCheckDigit p)) \<and>
         startsWith (ImeiService_cleanInput
           (ImeiService_formatImei (p @ ImeiService_calculateLuhnCheckDigit p))) p"
proof -
  from Imei_luhn[OF assms(1)] obtain c where
    c: "c < 10" "ImeiService_calculateLuhnCheckDigit p = [digit_char c]"
      "ImeiService_validateLuhn (p @ [digit_char c])"
    by blast
  define s where "s = p @ [digit_char c]"
  have s: "all_digits s" "length s = 15"
    using assms c(1) by (simp_all add: s_def digit_char_props)
  have cl: "ImeiService_cleanInput (ImeiService_formatImei s) = s"
    using s by (rule Imei_clean_format)
  have "s \<noteq> []" using s(2) by auto
  then have "ImeiService_validate (ImeiService_formatImei s)"
    using s c(3) by (simp add: ImeiService_validate_def cl regex_digits_exact_def s_def[symmetric])
  moreover have "startsWith (ImeiService_cleanInput (ImeiService_formatImei s)) p"
    by (simp add: cl) (simp add: s_def startsWith_append)
  ultimately show ?thesis by (simp add: c(2) s_def)
qed

lemma Imei_generate_valid: "ImeiService_validate (fst (ImeiService_generate g))"
proof -
  obtain k g1 where k: "random_floor (length ImeiService_COMMON_TACS) g = (k, g1)"
    by (cases "random_floor (length ImeiService_COMMON_TACS) g")
  obtain n g2 where n: "random_floor 1000000 g1 = (n, g2)"
    by (cases "random_floor 1000000 g1")
  have "0 < length ImeiService_COMMON_TACS" by (simp add: ImeiService_COMMON_TACS_def)
  then have "k < length ImeiService_COMMON_TACS"
    using random_floor_less[of "length ImeiService_COMMON_TACS" g] k by simp
  then have tac: "regex_digits_exact 8 (ImeiService_COMMON_TACS ! k)"
    by (intro Imei_tacs nth_mem)
  have "n < 10 ^ 6" using random_floor_less[of 1000000 g1] n by simp
  then have ser: "regex_digits_exact 6 (padStart (nat_toString n) 6 CHR ''0'')"
    by (intro padStart_digits) simp_all
  define p where "p = ImeiService_COMMON_TACS ! k @ padStart (nat_toString n) 6 CHR ''0''"
  have p: "all_digits p" "length p = 14"
    using tac ser by (simp_all add: p_def regex_digits_exact_def)
  have "fst (ImeiService_generate g) =
        ImeiService_formatImei (p @ ImeiService_calculateLuhnCheckDigit p)"
    using k n by (simp add: ImeiService_generate_def Let_def p_def)
  with Imei_finish[OF p] show ?thesis by simp
qed

lemma startsWith_trans_append:
  assumes "startsWith s (p @ ds)"
  shows "startsWith s p"
proof -
  from assms have a: "take (length (p @ ds)) s = p @ ds" by (simp only: startsWith_def)
  have "take (length p) s = take (length p) (take (length (p @ ds)) s)" by (simp add: min_def)
  also have "\<dots> = take (length p) (p @ ds)" by (simp only: a)
  also have "\<dots> = p" by simp
  finally show ?thesis by (simp only: startsWith_def)
qed

lemma Imei_complete_valid:
  assumes "all_digits (ImeiService_cleanInput input)"
    and "fst (ImeiService_complete input g) = Inr s"
  shows "startsWith (ImeiService_cleanInput s) (ImeiService_cleanInput input) \<and>
         ImeiService_validate s"
proof -
  define p where "p = ImeiService_cleanInput input"
  have len: "8 \<le> length p" "length p < 15"
    using assms(2) by (auto simp: ImeiService_complete_def Let_def p_def split: if_splits)
  obtain completed g' where pr: "pad_random 14 p g = (completed, g')"
    by (cases "pad_random 14 p g")
  from pad_random_props[OF pr] obtain ds where
    ds: "completed = p @ ds" "length ds = 14 - length p" "all_digits ds"
    by blast
  have c: "all_digits completed" "length completed = 14"
    using ds assms(1) len by (simp_all add: p_def)
  have "s = ImeiService_formatImei (completed @ ImeiService_calculateLuhnCheckDigit completed)"
    using assms(2) len pr
    by (auto simp: ImeiService_complete_def Let_def p_def[symmetric] split: if_splits)
  with Imei_finish[OF c] have "ImeiService_validate s"
    and "startsWith (ImeiService_cleanInput s) (p @ ds)"
    by (simp_all add: ds(1))
  then show ?thesis
    using startsWith_trans_append[of "ImeiService_cleanInput s" p ds] by (simp add: p_def)
qed

section \<open>Credit card: generation and completion of any accepted prefix\<close>


lemma CC_clean_format:
  assumes "all_digits s"
  shows "CreditCardService_cleanInput (CreditCardService_formatCardNumber s) = s"
  unfolding CreditCardService_cleanInput_def
  using assms
proof (rule formatCardNumber_filter)
  show "\<not> \<not> (is_space CHR '' '' \<or> CHR '' '' = CHR ''-'')" by (simp add: is_space_def)
  show "\<forall>c. is_digit c \<longrightarrow> \<not> (is_space c \<or> c = CHR ''-'')"
    by (auto simp: is_digit_def is_space_def)
qed

lemma CC_finish:
  assumes p: "all_digits p"
    and det: "\<And>c. CreditCardService_detectCardType (p @ [c]) = Some ct"
    and len: "Suc (length p) \<in> set (lengths ct)"
  shows "CreditCardService_validate
           (CreditCardService_formatCardNumber (p @ CreditCardService_calculateLuhnCheckDigit p))"
proof -
  from CC_luhn[OF p] obtain c where
    c: "c < 10" "CreditCardService_calculateLuhnCheckDigit p = [digit_char c]"
      "CreditCardService_validateLuhn (p @ [digit_char c])"
    by blast
  define s where "s = p @ [digit_char c]"
  have s: "all_digits s" "s \<noteq> []" "length s = Suc (length p)"
    using p c(1) by (simp_all add: s_def digit_char_props)
  have cl: "CreditCardService_cleanInput (CreditCardService_formatCardNumber s) = s"
    using s(1) by (rule CC_clean_format)
  have d: "CreditCardService_detectCardType s = Some ct" unfolding s_def by (rule det)
  have "CreditCardService_validate (CreditCardService_formatCardNumber s)"
    using s len c(3) d
    by (simp add: CreditCardService_validate_def cl regex_digits_plus_def s_def[symmetric])
  then show ?thesis by (simp add: c(2) s_def)
qed

lemma CC_pad:
  assumes "all_digits pre" and "length pre \<le> n"
  shows "\<exists>ds. fst (pad_random n pre g) = pre @ ds \<and> all_digits (pre @ ds) \<and>
           length (pre @ ds) = n"
proof -
  obtain r g' where pr: "pad_random n pre g = (r, g')" by (cases "pad_random n pre g")
  from pad_random_props[OF pr] obtain ds where
    ds: "r = pre @ ds" "length ds = n - length pre" "all_digits ds" by blast
  then show ?thesis using assms pr by auto
qed

lemma small_cases:
  "k < 2 \<Longrightarrow> k \<in> {0, 1::nat}"
  "k < 4 \<Longrightarrow> k \<in> {0, 1, 2, 3::nat}"
  "k < 5 \<Longrightarrow> k \<in> {0, 1, 2, 3, 4::nat}"
  "k < 7 \<Longrightarrow> k \<in> {0, 1, 2, 3, 4, 5, 6::nat}"
  by (simp_all, arith+)

lemma CC_gen_visa:
  "\<exists>p. fst (CreditCardService_generateNumberForPattern [''4''] 13 g) = p \<and> all_digits p \<and>
     length p = 12 \<and>
     (\<forall>c. CreditCardService_detectCardType (p @ [c]) =
        Some \<lparr>patterns = [[''4'']], lengths = [13, 16, 19], name = ''Visa''\<rparr>)"
proof -
  have a: "all_digits ''4''" by (simp add: is_digit_def)
  from CC_pad[OF a, of 12 g] obtain ds where
    ds: "fst (pad_random 12 ''4'' g) = ''4'' @ ds" "all_digits (''4'' @ ds)" "length (''4'' @ ds) = 12"
    by auto
  have "fst (CreditCardService_generateNumberForPattern [''4''] 13 g) = ''4'' @ ds"
    using ds(1) by (simp add: CreditCardService_generateNumberForPattern_def)
  moreover have "CreditCardService_detectCardType ((''4'' @ ds) @ [c]) =
        Some \<lparr>patterns = [[''4'']], lengths = [13, 16, 19], name = ''Visa''\<rparr>" for c
    by (simp add: detect_visa)
  ultimately show ?thesis using ds(2,3) by blast
qed

lemma CC_gen_mastercard:
  "\<exists>p. fst (CreditCardService_generateNumberForPattern [''5'', ''12345''] 16 g) = p \<and>
     all_digits p \<and> length p = 15 \<and>
     (\<forall>c. CreditCardService_detectCardType (p @ [c]) =
        Some \<lparr>patterns = [[''5'', ''12345''], [''2'', ''234567'']], lengths = [16],
          name = ''Mastercard''\<rparr>)"
proof -
  obtain k g' where k: "random_floor 5 g = (k, g')" by (cases "random_floor 5 g")
  have kl: "k < 5" using random_floor_less[of 5 g] k by simp
  define x where "x = digit_char (1 + k)"
  have x: "is_digit x" "x \<in> set ''12345''" "nat_toString (1 + k) = [x]"
    using small_cases(3)[OF kl] kl
    by (auto simp: x_def nat_toString_digit digit_char_def is_digit_def)
  have a: "all_digits [CHR ''5'', x]" using x(1) by (simp add: is_digit_def)
  from CC_pad[OF a, of 15 g'] obtain ds where
    ds: "fst (pad_random 15 [CHR ''5'', x] g') = [CHR ''5'', x] @ ds"
      "all_digits ([CHR ''5'', x] @ ds)" "length ([CHR ''5'', x] @ ds) = 15"
    by auto
  have "fst (CreditCardService_generateNumberForPattern [''5'', ''12345''] 16 g) = [CHR ''5'', x] @ ds"
    using ds(1) k x(3) by (simp add: CreditCardService_generateNumberForPattern_def)
  moreover have "CreditCardService_detectCardType (([CHR ''5'', x] @ ds) @ [c]) =
        Some \<lparr>patterns = [[''5'', ''12345''], [''2'', ''234567'']], lengths = [16],
          name = ''Mastercard''\<rparr>" for c
    using x(2) by (simp add: CreditCardService_detectCardType_def CreditCardService_CARD_TYPES_def)
  ultimately show ?thesis using ds(2,3) by blast
qed

lemma CC_gen_amex:
  "\<exists>p. fst (CreditCardService_generateNumberForPattern [''3'', ''47''] 15 g) = p \<and>
     all_digits p \<and> length p = 14 \<and>
     (\<forall>c. CreditCardService_detectCardType (p @ [c]) =
        Some \<lparr>patterns = [[''3'', ''47'']], lengths = [15], name = ''American Express''\<rparr>)"
proof -
  obtain r g' where r: "Math_random g = (r, g')" by (cases "Math_random g")
  define x where "x = (if r < 1 / 2 then CHR ''4'' else CHR ''7'')"
  have x: "is_digit x" "x \<in> set ''47''"
    by (simp_all add: x_def is_digit_def)
  have a: "all_digits [CHR ''3'', x]" using x(1) by (simp add: is_digit_def)
  from CC_pad[OF a, of 14 g'] obtain ds where
    ds: "fst (pad_random 14 [CHR ''3'', x] g') = [CHR ''3'', x] @ ds"
      "all_digits ([CHR ''3'', x] @ ds)" "length ([CHR ''3'', x] @ ds) = 14"
    by auto
  have "fst (CreditCardService_generateNumberForPattern [''3'', ''47''] 15 g) = [CHR ''3'', x] @ ds"
    using ds(1) r
    by (cases "r < 1 / 2") (simp_all add: CreditCardService_generateNumberForPattern_def x_def)
  moreover have "CreditCardService_detectCardType (([CHR ''3'', x] @ ds) @ [c]) =
        Some \<lparr>patterns = [[''3'', ''47'']], lengths = [15], name = ''American Express''\<rparr>" for c
    using x(2) by (simp add: CreditCardService_detectCardType_def CreditCardService_CARD_TYPES_def)
  ultimately show ?thesis using ds(2,3) by blast
qed

lemma CC_gen_discover:
  "\<exists>p. fst (CreditCardService_generateNumberForPattern [''6'', ''0'', ''1'', ''1''] 16 g) = p \<and>
     all_digits p \<and> length p = 15 \<and>
     (\<forall>c. CreditCardService_detectCardType (p @ [c]) =
        Some \<lparr>patterns = [[''6'', ''0'', ''1'', ''1''], [''6'', ''4'', ''456789''], [''6'', ''5'']],
          lengths = [16], name = ''Discover''\<rparr>)"
proof -
  have a: "all_digits ''6011''" by (simp add: is_digit_def)
  from CC_pad[OF a, of 15 g] obtain ds where
    ds: "fst (pad_random 15 ''6011'' g) = ''6011'' @ ds" "all_digits (''6011'' @ ds)"
      "length (''6011'' @ ds) = 15"
    by auto
  have "fst (CreditCardService_generateNumberForPattern [''6'', ''0'', ''1'', ''1''] 16 g) =
        ''6011'' @ ds"
    using ds(1) by (simp add: CreditCardService_generateNumberForPattern_def)
  moreover have "CreditCardService_detectCardType ((''6011'' @ ds) @ [c]) =
        Some \<lparr>patterns = [[''6'', ''0'', ''1'', ''1''], [''6'', ''4'', ''456789''], [''6'', ''5'']],
          lengths = [16], name = ''Discover''\<rparr>" for c
    by (simp add: CreditCardService_detectCardType_def CreditCardService_CARD_TYPES_def)
  ultimately show ?thesis using ds(2,3) by blast
qed

lemma CC_gen_jcb:
  "\<exists>p. fst (CreditCardService_generateNumberForPattern [''3'', ''5'', ''2345678'', ''89''] 16 g) = p \<and>
     all_digits p \<and> length p = 15 \<and>
     (\<forall>c. CreditCardService_detectCardType (p @ [c]) =
        Some \<lparr>patterns = [[''3'', ''5'', ''2345678'', ''89'']], lengths = [16], name = ''JCB''\<rparr>)"
proof -
  obtain k g' where k: "random_floor 7 g = (k, g')" by (cases "random_floor 7 g")
  obtain j g'' where j: "random_floor 2 g' = (j, g'')" by (cases "random_floor 2 g'")
  have kl: "k < 7" using random_floor_less[of 7 g] k by simp
  have jl: "j < 2" using random_floor_less[of 2 g'] j by simp
  define x where "x = digit_char (2 + k)"
  define y where "y = digit_char (8 + j)"
  have x: "is_digit x" "x \<in> set ''2345678''" "nat_toString (2 + k) = [x]"
    using small_cases(4)[OF kl] kl
    by (auto simp: x_def nat_toString_digit digit_char_def is_digit_def)
  have y: "is_digit y" "y \<in> set ''89''" "nat_toString (8 + j) = [y]"
    using small_cases(1)[OF jl] jl
    by (auto simp: y_def nat_toString_digit digit_char_def is_digit_def)
  have a: "all_digits [CHR ''3'', CHR ''5'', x, y]" using x(1) y(1) by (simp add: is_digit_def)
  from CC_pad[OF a, of 15 g''] obtain ds where
    ds: "fst (pad_random 15 [CHR ''3'', CHR ''5'', x, y] g'') = [CHR ''3'', CHR ''5'', x, y] @ ds"
      "all_digits ([CHR ''3'', CHR ''5'', x, y] @ ds)"
      "length ([CHR ''3'', CHR ''5'', x, y] @ ds) = 15"
    by auto
  have "fst (CreditCardService_generateNumberForPattern [''3'', ''5'', ''2345678'', ''89''] 16 g) =
        [CHR ''3'', CHR ''5'', x, y] @ ds"
    using ds(1) k j x(3) y(3) by (simp add: CreditCardService_generateNumberForPattern_def)
  moreover have "CreditCardService_detectCardType (([CHR ''3'', CHR ''5'', x, y] @ ds) @ [c]) =
        Some \<lparr>patterns = [[''3'', ''5'', ''2345678'', ''89'']], lengths = [16], name = ''JCB''\<rparr>" for c
    using x(2) y(2)
    by (simp add: CreditCardService_detectCardType_def CreditCardService_CARD_TYPES_def)
  ultimately show ?thesis using ds(2,3) by blast
qed

lemma CC_gen_diners:
  "\<exists>p. fst (CreditCardService_generateNumberForPattern [''3'', ''0689''] 14 g) = p \<and>
     all_digits p \<and> length p = 13 \<and>
     (\<forall>c. CreditCardService_detectCardType (p @ [c]) =
        Some \<lparr>patterns = [[''3'', ''0689'']], lengths = [14], name = ''Diners Club''\<rparr>)"
proof -
  obtain k g' where k: "random_floor 4 g = (k, g')" by (cases "random_floor 4 g")
  have kl: "k < 4" using random_floor_less[of 4 g] k by simp
  define x where "x = ''0689'' ! k"
  have x: "is_digit x" "x \<in> set ''0689''"
    using small_cases(2)[OF kl] by (auto simp: x_def is_digit_def)
  have a: "all_digits [CHR ''3'', x]" using x(1) by (simp add: is_digit_def)
  from CC_pad[OF a, of 13 g'] obtain ds where
    ds: "fst (pad_random 13 [CHR ''3'', x] g') = [CHR ''3'', x] @ ds"
      "all_digits ([CHR ''3'', x] @ ds)" "length ([CHR ''3'', x] @ ds) = 13"
    by auto
  have "fst (CreditCardService_generateNumberForPattern [''3'', ''0689''] 14 g) = [CHR ''3'', x] @ ds"
    using ds(1) k by (simp add: CreditCardService_generateNumberForPattern_def x_def)
  moreover have "CreditCardService_detectCardType (([CHR ''3'', x] @ ds) @ [c]) =
        Some \<lparr>patterns = [[''3'', ''0689'']], lengths = [14], name = ''Diners Club''\<rparr>" for c
    using x(2) by (auto simp: CreditCardService_detectCardType_def CreditCardService_CARD_TYPES_def)
  ultimately show ?thesis using ds(2,3) by blast
qed

lemma CC_random_type:
  "\<exists>k < 6. fst (CreditCardService_getRandomCardType g) = fst (CreditCardService_CARD_TYPES ! k)"
proof -
  have l: "length CreditCardService_CARD_TYPES = 6"
    by (simp add: CreditCardService_CARD_TYPES_def)
  obtain k g' where k: "random_floor 6 g = (k, g')" by (cases "random_floor 6 g")
  have "k < 6" using random_floor_less[of 6 g] k by simp
  moreover have "fst (CreditCardService_getRandomCardType g) =
      fst (CreditCardService_CARD_TYPES ! k)"
    using k \<open>k < 6\<close> by (simp add: CreditCardService_getRandomCardType_def Let_def l)
  ultimately show ?thesis by blast
qed

lemma CC_generate_for:
  assumes "fst (CreditCardService_getRandomCardType g) = key"
    and "map_of CreditCardService_CARD_TYPES key = Some ct"
    and "\<And>g1. \<exists>p. fst (CreditCardService_generateNumberForPattern (patterns ct ! 0)
              (lengths ct ! 0) g1) = p \<and> all_digits p \<and> Suc (length p) = lengths ct ! 0 \<and>
            (\<forall>c. CreditCardService_detectCardType (p @ [c]) = Some ct)"
    and "lengths ct \<noteq> []"
  shows "\<exists>s. fst (CreditCardService_generate g) = Inr s \<and> CreditCardService_validate s"
proof -
  obtain g1 where g1: "CreditCardService_getRandomCardType g = (key, g1)"
    using assms(1) by (cases "CreditCardService_getRandomCardType g") simp
  from assms(3)[of g1] obtain p where
    p: "fst (CreditCardService_generateNumberForPattern (patterns ct ! 0) (lengths ct ! 0) g1) = p"
      "all_digits p" "Suc (length p) = lengths ct ! 0"
      "\<And>c. CreditCardService_detectCardType (p @ [c]) = Some ct"
    by blast
  have "lengths ct ! 0 \<in> set (lengths ct)" using assms(4) by simp
  then have m: "Suc (length p) \<in> set (lengths ct)" by (simp only: p(3))
  have sub: "substring p 0 (lengths ct ! 0 - 1) = p"
    using p(3)[symmetric] by (simp add: substring_def)
  have "fst (CreditCardService_generate g) =
        Inr (CreditCardService_formatCardNumber (p @ CreditCardService_calculateLuhnCheckDigit p))"
    using g1 assms(2) p(1) sub
    by (simp add: CreditCardService_generate_def Let_def split_def)
  with CC_finish[OF p(2) p(4) m] show ?thesis by simp
qed

lemma CC_generate_valid:
  "\<exists>s. fst (CreditCardService_generate g) = Inr s \<and> CreditCardService_validate s"
proof -
  from CC_random_type[of g] obtain k where
    k: "k < 6" "fst (CreditCardService_getRandomCardType g) = fst (CreditCardService_CARD_TYPES ! k)"
    by blast
  from k(1) have "k \<in> {0, 1, 2, 3, 4, 5::nat}" by simp arith
  then consider "k = 0" | "k = 1" | "k = 2" | "k = 3" | "k = 4" | "k = 5" by auto
  then show ?thesis
  proof cases
    case 1
    show ?thesis
    proof (rule CC_generate_for[where key = "''visa''" and
          ct = "\<lparr>patterns = [[''4'']], lengths = [13, 16, 19], name = ''Visa''\<rparr>"])
      show "fst (CreditCardService_getRandomCardType g) = ''visa''"
        using k(2) 1 by (simp add: CreditCardService_CARD_TYPES_def)
    next
      fix g1
      show "\<exists>p. fst (CreditCardService_generateNumberForPattern
           (patterns \<lparr>patterns = [[''4'']], lengths = [13, 16, 19], name = ''Visa''\<rparr> ! 0)
           (lengths \<lparr>patterns = [[''4'']], lengths = [13, 16, 19], name = ''Visa''\<rparr> ! 0) g1) = p \<and>
          all_digits p \<and>
          Suc (length p) = lengths \<lparr>patterns = [[''4'']], lengths = [13, 16, 19], name = ''Visa''\<rparr> ! 0 \<and>
          (\<forall>c. CreditCardService_detectCardType (p @ [c]) =
             Some \<lparr>patterns = [[''4'']], lengths = [13, 16, 19], name = ''Visa''\<rparr>)"
        using CC_gen_visa[of g1] by simp
    qed (simp_all add: CreditCardService_CARD_TYPES_def)
  next
    case 2
    show ?thesis
    proof (rule CC_generate_for[where key = "''mastercard''" and
          ct = "\<lparr>patterns = [[''5'', ''12345''], [''2'', ''234567'']], lengths = [16],
                  name = ''Mastercard''\<rparr>"])
      show "fst (CreditCardService_getRandomCardType g) = ''mastercard''"
        using k(2) 2 by (simp add: CreditCardService_CARD_TYPES_def)
    next
      fix g1
      show "\<exists>p. fst (CreditCardService_generateNumberForPattern
           (patterns \<lparr>patterns = [[''5'', ''12345''], [''2'', ''234567'']], lengths = [16],
                  name = ''Mastercard''\<rparr> ! 0)
           (lengths \<lparr>patterns = [[''5'', ''12345''], [''2'', ''234567'']], lengths = [16],
                  name = ''Mastercard''\<rparr> ! 0) g1) = p \<and>
          all_digits p \<and>
          Suc (length p) = lengths \<lparr>patterns = [[''5'', ''12345''], [''2'', ''234567'']], lengths = [16],
                  name = ''Mastercard''\<rparr> ! 0 \<and>
          (\<forall>c. CreditCardService_detectCardType (p @ [c]) =
             Some \<lparr>patterns = [[''5'', ''12345''], [''2'', ''234567'']], lengths = [16],
                  name = ''Mastercard''\<rparr>)"
        using CC_gen_mastercard[of g1] by simp
    qed (simp_all add: CreditCardService_CARD_TYPES_def)
  next
    case 3
    show ?thesis
    proof (rule CC_generate_for[where key = "''amex''" and
          ct = "\<lparr>patterns = [[''3'', ''47'']], lengths = [15], name = ''American Express''\<rparr>"])
      show "fst (CreditCardService_getRandomCardType g) = ''amex''"
        using k(2) 3 by (simp add: CreditCardService_CARD_TYPES_def)
    next
      fix g1
      show "\<exists>p. fst (CreditCardService_generateNumberForPattern
           (patterns \<lparr>patterns = [[''3'', ''47'']], lengths = [15], name = ''American Express''\<rparr> ! 0)
           (lengths \<lparr>patterns = [[''3'', ''47'']], lengths = [15], name = ''American Express''\<rparr> ! 0)
           g1) = p \<and>
          all_digits p \<and>
          Suc (length p) =
            lengths \<lparr>patterns = [[''3'', ''47'']], lengths = [15], name = ''American Express''\<rparr> ! 0 \<and>
          (\<forall>c. CreditCardService_detectCardType (p @ [c]) =
             Some \<lparr>patterns = [[''3'', ''47'']], lengths = [15], name = ''American Express''\<rparr>)"
        using CC_gen_amex[of g1] by simp
    qed (simp_all add: CreditCardService_CARD_TYPES_def)
  next
    case 4
    show ?thesis
    proof (rule CC_generate_for[where key = "''discover''" and
          ct = "\<lparr>patterns = [[''6'', ''0'', ''1'', ''1''], [''6'', ''4'', ''456789''], [''6'', ''5'']],
                  lengths = [16], name = ''Discover''\<rparr>"])
      show "fst (CreditCardService_getRandomCardType g) = ''discover''"
        using k(2) 4 by (simp add: CreditCardService_CARD_TYPES_def)
    next
      fix g1
      show "\<exists>p. fst (CreditCardService_generateNumberForPattern
           (patterns \<lparr>patterns = [[''6'', ''0'', ''1'', ''1''], [''6'', ''4'', ''456789''], [''6'', ''5'']],
                  lengths = [16], name = ''Discover''\<rparr> ! 0)
           (lengths \<lparr>patterns = [[''6'', ''0'', ''1'', ''1''], [''6'', ''4'', ''456789''], [''6'', ''5'']],
                  lengths = [16], name = ''Discover''\<rparr> ! 0) g1) = p \<and>
          all_digits p \<and>
          Suc (length p) =
            lengths \<lparr>patterns = [[''6'', ''0'', ''1'', ''1''], [''6'', ''4'', ''456789''], [''6'', ''5'']],
                  lengths = [16], name = ''Discover''\<rparr> ! 0 \<and>
          (\<forall>c. CreditCardService_detectCardType (p @ [c]) =
             Some \<lparr>patterns = [[''6'', ''0'', ''1'', ''1''], [''6'', ''4'', ''456789''], [''6'', ''5'']],
                  lengths = [16], name = ''Discover''\<rparr>)"
        using CC_gen_discover[of g1] by simp
    qed (simp_all add: CreditCardService_CARD_TYPES_def)
  next
    case 5
    show ?thesis
    proof (rule CC_generate_for[where key = "''jcb''" and
          ct = "\<lparr>patterns = [[''3'', ''5'', ''2345678'', ''89'']], lengths = [16], name = ''JCB''\<rparr>"])
      show "fst (CreditCardService_getRandomCardType g) = ''jcb''"
        using k(2) 5 by (simp add: CreditCardService_CARD_TYPES_def)
    next
      fix g1
      show "\<exists>p. fst (CreditCardService_generateNumberForPattern
           (patterns \<lparr>patterns = [[''3'', ''5'', ''2345678'', ''89'']], lengths = [16], name = ''JCB''\<rparr> ! 0)
           (lengths \<lparr>patterns = [[''3'', ''5'', ''2345678'', ''89'']], lengths = [16], name = ''JCB''\<rparr> ! 0)
           g1) = p \<and>
          all_digits p \<and>
          Suc (length p) =
            lengths \<lparr>patterns = [[''3'', ''5'', ''2345678'', ''89'']], lengths = [16], name = ''JCB''\<rparr> ! 0 \<and>
          (\<forall>c. CreditCardService_detectCardType (p @ [c]) =
             Some \<lparr>patterns = [[''3'', ''5'', ''2345678'', ''89'']], lengths = [16], name = ''JCB''\<rparr>)"
        using CC_gen_jcb[of g1] by simp
    qed (simp_all add: CreditCardService_CARD_TYPES_def)
  next
    case 6
    show ?thesis
    proof (rule CC_generate_for[where key = "''diners''" and
          ct = "\<lparr>patterns = [[''3'', ''0689'']], lengths = [14], name = ''Diners Club''\<rparr>"])
      show "fst (CreditCardService_getRandomCardType g) = ''diners''"
        using k(2) 6 by (simp add: CreditCardService_CARD_TYPES_def)
    next
      fix g1
      show "\<exists>p. fst (CreditCardService_generateNumberForPattern
           (patterns \<lparr>patterns = [[''3'', ''0689'']], lengths = [14], name = ''Diners Club''\<rparr> ! 0)
           (lengths \<lparr>patterns = [[''3'', ''0689'']], lengths = [14], name = ''Diners Club''\<rparr> ! 0)
           g1) = p \<and>
          all_digits p \<and>
          Suc (length p) =
            lengths \<lparr>patterns = [[''3'', ''0689'']], lengths = [14], name = ''Diners Club''\<rparr> ! 0 \<and>
          (\<forall>c. CreditCardService_detectCardType (p @ [c]) =
             Some \<lparr>patterns = [[''3'', ''0689'']], lengths = [14], name = ''Diners Club''\<rparr>)"
        using CC_gen_diners[of g1] by simp
    qed (simp_all add: CreditCardService_CARD_TYPES_def)
  qed
qed

lemma regex_prefix_append:
  "length pat \<le> length p \<Longrightarrow> regex_prefix pat (p @ x) = regex_prefix pat p"
  by (induction pat p rule: regex_prefix.induct) simp_all

lemma CC_card_types_shape:
  "\<forall>info \<in> set (map snd CreditCardService_CARD_TYPES).
     lengths info \<noteq> [] \<and> (\<forall>pat \<in> set (patterns info). length pat \<le> 4)"
  by (simp add: CreditCardService_CARD_TYPES_def)

lemma CC_detect_append:
  assumes "4 \<le> length p"
  shows "CreditCardService_detectCardType (p @ x) = CreditCardService_detectCardType p"
  unfolding CreditCardService_detectCardType_def
proof (rule find_cong[OF refl])
  fix info assume "info \<in> set (map snd CreditCardService_CARD_TYPES)"
  then have "\<forall>pat \<in> set (patterns info). length pat \<le> length p"
    using CC_card_types_shape assms by fastforce
  then show "list_ex (\<lambda>pattern. regex_prefix pattern (p @ x)) (patterns info) =
             list_ex (\<lambda>pattern. regex_prefix pattern p) (patterns info)"
    by (simp add: list_ex_iff regex_prefix_append)
qed

lemma CC_detect_member:
  "CreditCardService_detectCardType p = Some ct \<Longrightarrow> lengths ct \<noteq> []"
  using CC_card_types_shape
  by (auto simp: CreditCardService_detectCardType_def find_Some_iff)

lemma CC_complete_valid:
  assumes "all_digits (CreditCardService_cleanInput input)"
    and "fst (CreditCardService_complete input g) = Inr s"
  shows "startsWith (CreditCardService_cleanInput s) (CreditCardService_cleanInput input) \<and>
         CreditCardService_validate s"
proof -
  define p where "p = CreditCardService_cleanInput input"
  from assms(2) obtain ct where
    ct: "CreditCardService_detectCardType p = Some ct" "4 \<le> length p" "length p < lengths ct ! 0"
    by (auto simp: CreditCardService_complete_def Let_def p_def[symmetric]
        split: if_splits option.splits)
  from CC_complete_general[OF ct(1) p_def _ ct(2,3), of g] assms(1) obtain ds c where
    h: "c < 10" "all_digits ds" "length (p @ ds) = lengths ct ! 0 - 1"
      "CreditCardService_validateLuhn (p @ ds @ [digit_char c])"
      "fst (CreditCardService_complete input g) =
         Inr (CreditCardService_formatCardNumber (p @ ds @ [digit_char c]))"
    by (auto simp: p_def)
  define r where "r = p @ ds @ [digit_char c]"
  have r: "all_digits r" "r \<noteq> []" "length r = lengths ct ! 0"
    using assms(1) h(1,2,3) ct(3) by (simp_all add: r_def p_def digit_char_props)
  have s: "s = CreditCardService_formatCardNumber r"
    using h(5) assms(2) by (simp add: r_def)
  have cl: "CreditCardService_cleanInput s = r"
    unfolding s using r(1) by (rule CC_clean_format)
  have "lengths ct \<noteq> []" using ct(1) by (rule CC_detect_member)
  then have m: "length r \<in> set (lengths ct)" by (simp add: r(3))
  have d: "CreditCardService_detectCardType r = Some ct"
    using CC_detect_append[OF ct(2), of "ds @ [digit_char c]"] ct(1) by (simp add: r_def)
  have v: "CreditCardService_validate s"
    using r m d h(4) by (simp add: CreditCardService_validate_def cl regex_digits_plus_def r_def[symmetric])
  have "startsWith r p" by (simp add: r_def startsWith_append)
  with v show ?thesis by (simp add: cl p_def)
qed

section \<open>EAN: generation and completion of any accepted prefix\<close>


lemma Ean_gs1_all: "list_all all_digits EanService_COMMON_GS1_PREFIXES"
  by (simp add: EanService_COMMON_GS1_PREFIXES_def is_digit_def)

lemma getRandomElement_member:
  assumes "array \<noteq> []"
  shows "fst (getRandomElement array g) \<in> set array"
proof -
  obtain k g' where k: "random_floor (length array) g = (k, g')"
    by (cases "random_floor (length array) g")
  have "k < length array" using random_floor_less[of "length array" g] k assms by simp
  then show ?thesis using k by (simp add: getRandomElement_def)
qed

lemma generateRandomDigits_digits: "all_digits (fst (generateRandomDigits mn mx g))"
proof -
  have "all_digits (fst (random_digits n h))" for n h
    using random_digits_props[of n h] by simp
  then show ?thesis
    by (simp add: generateRandomDigits_def split_def split: option.splits)
qed

lemma substring_prefix_digits:
  "all_digits s \<Longrightarrow> n \<le> length s \<Longrightarrow> regex_digits_exact n (substring s 0 n)"
  by (simp add: substring_def regex_digits_exact_def all_digits_take)

lemma Ean_finish13:
  assumes "regex_digits_exact 12 d"
  shows "EanService_validate (EanService_formatEan13 (d @ EanService_calculateChecksum d))"
proof -
  from assms have d: "all_digits d" "length d = 12" by (simp_all add: regex_digits_exact_def)
  from Ean_checksum[OF d(1)] obtain k where
    k: "k < 10" "EanService_calculateChecksum d = [digit_char k]"
      "EanService_validateChecksum (d @ [digit_char k]) (Suc (length d))"
    by blast
  have r: "regex_digits_exact 13 (d @ [digit_char k])"
    using d k(1) by (simp add: regex_digits_exact_def digit_char_props)
  have c: "EanService_cleanInput (EanService_formatEan13 (d @ [digit_char k])) = d @ [digit_char k]"
    using r by (rule Ean_clean_format13)
  show ?thesis
    using r k(3) d(2)
    by (simp add: k(2) EanService_validate_def c Let_def EanService_validateEan13_def)
qed

lemma Ean_finish12:
  assumes "regex_digits_exact 11 d"
  shows "EanService_validate (EanService_formatUpcA (d @ EanService_calculateChecksum d))"
proof -
  from assms have d: "all_digits d" "length d = 11" by (simp_all add: regex_digits_exact_def)
  from Ean_checksum[OF d(1)] obtain k where
    k: "k < 10" "EanService_calculateChecksum d = [digit_char k]"
      "EanService_validateChecksum (d @ [digit_char k]) (Suc (length d))"
    by blast
  have r: "regex_digits_exact 12 (d @ [digit_char k])"
    using d k(1) by (simp add: regex_digits_exact_def digit_char_props)
  have c: "EanService_cleanInput (EanService_formatUpcA (d @ [digit_char k])) = d @ [digit_char k]"
    using r by (rule Ean_clean_format12)
  show ?thesis
    using r k(3) d(2)
    by (simp add: k(2) EanService_validate_def c Let_def EanService_validateUpcA_def)
qed

lemma Ean_finish8:
  assumes "regex_digits_exact 7 d"
  shows "EanService_validate (EanService_formatEan8 (d @ EanService_calculateChecksum d))"
proof -
  from assms have d: "all_digits d" "length d = 7" by (simp_all add: regex_digits_exact_def)
  from Ean_checksum[OF d(1)] obtain k where
    k: "k < 10" "EanService_calculateChecksum d = [digit_char k]"
      "EanService_validateChecksum (d @ [digit_char k]) (Suc (length d))"
    by blast
  have r: "regex_digits_exact 8 (d @ [digit_char k])"
    using d k(1) by (simp add: regex_digits_exact_def digit_char_props)
  have c: "EanService_cleanInput (EanService_formatEan8 (d @ [digit_char k])) = d @ [digit_char k]"
    using r by (rule Ean_clean_format8)
  show ?thesis
    using r k(3) d(2)
    by (simp add: k(2) EanService_validate_def c Let_def EanService_validateEan8_def)
qed

lemma Ean_fill:
  assumes "all_digits parts"
  shows "regex_digits_exact n
           (fst (if length parts < n
                 then (case generateRandomDigits (n - length parts) None g of
                         (extra, g4) \<Rightarrow> (parts @ extra, g4))
                 else if n < length parts then (substring parts 0 n, g)
                 else (parts, g)))"
proof (cases "length parts < n")
  case True
  obtain extra g4 where e: "generateRandomDigits (n - length parts) None g = (extra, g4)"
    by (cases "generateRandomDigits (n - length parts) None g")
  from generateRandomDigits_exact[OF e] True assms e show ?thesis
    by (simp add: regex_digits_exact_def)
next
  case False
  then show ?thesis
    using assms substring_prefix_digits[of parts n]
    by (auto simp: regex_digits_exact_def)
qed

lemma Ean_generateEan13_valid: "EanService_validate (fst (EanService_generateEan13 g))"
proof -
  obtain prefix g1 where a: "getRandomElement EanService_COMMON_GS1_PREFIXES g = (prefix, g1)"
    by (cases "getRandomElement EanService_COMMON_GS1_PREFIXES g")
  obtain manufacturer g2 where b: "generateRandomDigits 3 (Some 5) g1 = (manufacturer, g2)"
    by (cases "generateRandomDigits 3 (Some 5) g1")
  obtain product g3 where c: "generateRandomDigits 2 (Some 4) g2 = (product, g3)"
    by (cases "generateRandomDigits 2 (Some 4) g2")
  have "EanService_COMMON_GS1_PREFIXES \<noteq> []" by (simp add: EanService_COMMON_GS1_PREFIXES_def)
  from getRandomElement_member[OF this, of g] a have "all_digits prefix"
    using Ean_gs1_all by (simp add: list_all_iff)
  moreover have "all_digits manufacturer" "all_digits product"
    using generateRandomDigits_digits[of 3 "Some 5" g1] generateRandomDigits_digits[of 2 "Some 4" g2]
      b c by simp_all
  ultimately have p: "all_digits (prefix @ manufacturer @ product)" by simp
  define r where "r = (if length (prefix @ manufacturer @ product) < 12
                 then (case generateRandomDigits (12 - length (prefix @ manufacturer @ product)) None g3 of
                         (extra, g4) \<Rightarrow> ((prefix @ manufacturer @ product) @ extra, g4))
                 else if 12 < length (prefix @ manufacturer @ product)
                 then (substring (prefix @ manufacturer @ product) 0 12, g3)
                 else (prefix @ manufacturer @ product, g3))"
  have d: "regex_digits_exact 12 (fst r)" unfolding r_def using p by (rule Ean_fill)
  have "fst (EanService_generateEan13 g) =
        EanService_formatEan13 (fst r @ EanService_calculateChecksum (fst r))"
    using a b c by (simp add: EanService_generateEan13_def Let_def split_def r_def add.assoc)
  with Ean_finish13[OF d] show ?thesis by simp
qed

lemma Ean_generateEan8_valid: "EanService_validate (fst (EanService_generateEan8 g))"
proof -
  obtain country g1 where a: "generateRandomDigits 2 (Some 3) g = (country, g1)"
    by (cases "generateRandomDigits 2 (Some 3) g")
  obtain manufacturer g2 where b: "generateRandomDigits 2 (Some 3) g1 = (manufacturer, g2)"
    by (cases "generateRandomDigits 2 (Some 3) g1")
  obtain product g3 where c: "generateRandomDigits 1 (Some 2) g2 = (product, g3)"
    by (cases "generateRandomDigits 1 (Some 2) g2")
  have "all_digits country" "all_digits manufacturer" "all_digits product"
    using generateRandomDigits_digits[of 2 "Some 3" g] generateRandomDigits_digits[of 2 "Some 3" g1]
      generateRandomDigits_digits[of 1 "Some 2" g2] a b c by simp_all
  then have p: "all_digits (country @ manufacturer @ product)" by simp
  define r where "r = (if length (country @ manufacturer @ product) < 7
                 then (case generateRandomDigits (7 - length (country @ manufacturer @ product)) None g3 of
                         (extra, g4) \<Rightarrow> ((country @ manufacturer @ product) @ extra, g4))
                 else if 7 < length (country @ manufacturer @ product)
                 then (substring (country @ manufacturer @ product) 0 7, g3)
                 else (country @ manufacturer @ product, g3))"
  have d: "regex_digits_exact 7 (fst r)" unfolding r_def using p by (rule Ean_fill)
  have "fst (EanService_generateEan8 g) =
        EanService_formatEan8 (fst r @ EanService_calculateChecksum (fst r))"
    using a b c by (simp add: EanService_generateEan8_def Let_def split_def r_def)
  with Ean_finish8[OF d] show ?thesis by simp
qed

lemma Ean_generateUpcA_valid: "EanService_validate (fst (EanService_generateUpcA g))"
proof -
  obtain k g1 where a: "random_floor 10 g = (k, g1)" by (cases "random_floor 10 g")
  obtain manufacturer g2 where b: "generateRandomDigits 5 None g1 = (manufacturer, g2)"
    by (cases "generateRandomDigits 5 None g1")
  obtain product g3 where c: "generateRandomDigits 5 None g2 = (product, g3)"
    by (cases "generateRandomDigits 5 None g2")
  have k: "k < 10" using random_floor_less[of 10 g] a by simp
  define d where "d = nat_toString k @ manufacturer @ product"
  have "regex_digits_exact 11 d"
    using generateRandomDigits_exact[OF b] generateRandomDigits_exact[OF c] k
    by (simp add: d_def regex_digits_exact_def nat_toString_digit digit_char_props)
  from Ean_finish12[OF this] show ?thesis
    using a b c by (simp add: EanService_generateUpcA_def Let_def d_def)
qed

lemma Ean_generate_valid: "EanService_validate (fst (EanService_generate g))"
  by (simp add: EanService_generate_def split_def Ean_generateEan13_valid Ean_generateEan8_valid
      Ean_generateUpcA_valid)

lemma Ean_complete_valid:
  assumes "all_digits (EanService_cleanInput input)"
    and "fst (EanService_complete input g) = Inr s"
  shows "startsWith (EanService_cleanInput s) (EanService_cleanInput input) \<and>
         EanService_validate s"
proof -
  define p where "p = EanService_cleanInput input"
  have r: "fst (EanService_complete input g) =
      (if 3 \<le> length p \<and> length p < 7 then Inr (fst (EanService_completeAsEan8 p g))
       else if 7 \<le> length p \<and> length p < 12 then Inr (fst (EanService_completeAsEan13 p g))
       else Inl CannotComplete)"
    by (simp add: Ean_complete_routes Let_def p_def)
  consider "length p < 7" "s = fst (EanService_completeAsEan8 p g)"
    | "length p < 12" "s = fst (EanService_completeAsEan13 p g)"
    using assms(2) unfolding r by (auto split: if_splits)
  then show ?thesis
  proof cases
    case 1
    with Ean_completeAsEan8_valid[of p g] assms(1) show ?thesis by (simp add: p_def)
  next
    case 2
    with Ean_completeAsEan13_valid[of p g] assms(1) show ?thesis by (simp add: p_def)
  qed
qed

section \<open>ISBN: sums, check digits and formatting\<close>


lemma parseInt_at_append:
  "i < length d \<Longrightarrow> parseInt_at (d @ x) i = parseInt_at d i"
  by (simp add: parseInt_at_def nth_append)

lemma parseInt_at_digit:
  "all_digits d \<Longrightarrow> i < length d \<Longrightarrow> parseInt_at d i = Some (digit_val (d ! i))"
  by (simp add: parseInt_at_def parseInt_single all_digits_def list_all_length)

lemma Isbn_fold_some:
  "all_digits d \<Longrightarrow> \<forall>i \<in> set js. i < length d \<Longrightarrow>
   \<exists>w. foldl (\<lambda>sumv i. nan_add sumv (map_option (f i) (parseInt_at d i))) (Some a) js = Some w"
proof (induction js arbitrary: a)
  case Nil
  then show ?case by simp
next
  case (Cons j js)
  then have "parseInt_at d j = Some (digit_val (d ! j))" by (simp add: parseInt_at_digit)
  then have "nan_add (Some a) (map_option (f j) (parseInt_at d j)) = Some (a + f j (digit_val (d ! j)))"
    by (simp add: nan_add_def)
  with Cons.IH[of "a + f j (digit_val (d ! j))"] Cons.prems show ?case by simp
qed

lemma Isbn10_sum_append:
  assumes "length d = 9"
  shows "IsbnService_isbn10_sum (d @ x) = IsbnService_isbn10_sum d"
  unfolding IsbnService_isbn10_sum_def
  by (rule foldl_cong) (simp_all add: parseInt_at_append assms)

lemma Isbn13_sum_append:
  assumes "length d = 12"
  shows "IsbnService_isbn13_sum (d @ x) = IsbnService_isbn13_sum d"
  unfolding IsbnService_isbn13_sum_def
  by (rule foldl_cong) (simp_all add: parseInt_at_append assms)

lemma Isbn10_sum_some:
  assumes "all_digits d" and "length d = 9"
  shows "\<exists>w. IsbnService_isbn10_sum d = Some w"
  unfolding IsbnService_isbn10_sum_def
  using assms by (intro Isbn_fold_some) simp_all

lemma Isbn13_sum_some:
  assumes "all_digits d" and "length d = 12"
  shows "\<exists>w. IsbnService_isbn13_sum d = Some w"
  unfolding IsbnService_isbn13_sum_def
  using assms by (intro Isbn_fold_some) simp_all

lemma Isbn10_check_char:
  "\<exists>c. IsbnService_calculateIsbn10CheckDigit (Some w) = [c] \<and> (is_digit c \<or> c = CHR ''X'')"
proof (cases "(11 - w mod 11) mod 11 = 10")
  case True
  then show ?thesis by (simp add: IsbnService_calculateIsbn10CheckDigit_def Let_def)
next
  case False
  have "(11 - w mod 11) mod 11 < 11" by simp
  with False have l: "(11 - w mod 11) mod 11 < 10" by linarith
  then show ?thesis
    using False by (simp add: IsbnService_calculateIsbn10CheckDigit_def Let_def nat_toString_digit
        digit_char_props)
qed

lemma to_upper_X: "to_upper CHR ''X'' = CHR ''X''"
  by (rule to_upper_not_lower) simp

lemma Isbn_clean_append:
  "IsbnService_cleanInput (a @ b) = IsbnService_cleanInput a @ IsbnService_cleanInput b"
  by (simp add: IsbnService_cleanInput_def toUpperCase_def)

lemma Isbn_clean_hyphen: "IsbnService_cleanInput ''-'' = []"
  by (simp add: IsbnService_cleanInput_def toUpperCase_def)

lemma Isbn_clean_code:
  "list_all (\<lambda>c. is_digit c \<or> c = CHR ''X'') s \<Longrightarrow> IsbnService_cleanInput s = s"
proof (induction s)
  case Nil
  then show ?case by (simp add: IsbnService_cleanInput_def toUpperCase_def)
next
  case (Cons c s)
  then have c: "is_digit c \<or> c = CHR ''X''" by simp
  then have "\<not> (c = CHR ''-'' \<or> is_space c)" by (auto simp: is_digit_def is_space_def)
  moreover have "to_upper c = c" using c to_upper_digit to_upper_X by auto
  ultimately show ?case
    using Cons by (simp add: IsbnService_cleanInput_def toUpperCase_def)
qed

lemma list_all_take_drop:
  "list_all P s \<Longrightarrow> list_all P (take n s) \<and> list_all P (drop n s)"
  by (auto simp: list_all_iff dest: in_set_takeD in_set_dropD)

lemma Isbn_clean_piece:
  assumes "list_all (\<lambda>c. is_digit c \<or> c = CHR ''X'') s"
  shows "IsbnService_cleanInput (take n (drop m s)) = take n (drop m s)"
    and "IsbnService_cleanInput (drop m s) = drop m s"
proof -
  have d: "list_all (\<lambda>c. is_digit c \<or> c = CHR ''X'') (drop m s)"
    using list_all_take_drop[OF assms, of m] by simp
  then show "IsbnService_cleanInput (drop m s) = drop m s" by (rule Isbn_clean_code)
  have "list_all (\<lambda>c. is_digit c \<or> c = CHR ''X'') (take n (drop m s))"
    using list_all_take_drop[OF d, of n] by simp
  then show "IsbnService_cleanInput (take n (drop m s)) = take n (drop m s)"
    by (rule Isbn_clean_code)
qed

lemma Isbn_clean_format10:
  assumes "list_all (\<lambda>c. is_digit c \<or> c = CHR ''X'') s" and "length s = 10"
  shows "IsbnService_cleanInput (IsbnService_formatIsbn10 s) = s"
proof -
  have c: "IsbnService_cleanInput (take n (drop m s)) = take n (drop m s)"
    "IsbnService_cleanInput (drop m s) = drop m s" for n m
    using assms(1) by (rule Isbn_clean_piece)+
  have "IsbnService_cleanInput (IsbnService_formatIsbn10 s) =
        take 1 s @ take 3 (drop 1 s) @ take 5 (drop 4 s) @ drop 9 s"
    using assms(2) c(1)[of 1 0] c(1)[of 3 1] c(1)[of 5 4] c(2)[of 9]
    by (simp add: IsbnService_formatIsbn10_def substring_def Isbn_clean_append Isbn_clean_hyphen
        del: append_Cons)
  also have "\<dots> = s"
  proof -
    have "take 5 (drop 4 s) @ drop 9 s = drop 4 s"
      using append_take_drop_id[of 5 "drop 4 s"] by simp
    then have "take 3 (drop 1 s) @ take 5 (drop 4 s) @ drop 9 s = drop 1 s"
      using append_take_drop_id[of 3 "drop 1 s"] by simp
    then show ?thesis using append_take_drop_id[of 1 s] by simp
  qed
  finally show ?thesis .
qed

lemma Isbn_clean_format13:
  assumes "all_digits s" and "length s = 13"
  shows "IsbnService_cleanInput (IsbnService_formatIsbn13 s) = s"
proof -
  have a: "list_all (\<lambda>c. is_digit c \<or> c = CHR ''X'') s"
    using assms(1) by (simp add: all_digits_def list_all_iff)
  have c: "IsbnService_cleanInput (take n (drop m s)) = take n (drop m s)"
    "IsbnService_cleanInput (drop m s) = drop m s" for n m
    using a by (rule Isbn_clean_piece)+
  have "IsbnService_cleanInput (IsbnService_formatIsbn13 s) =
        take 3 s @ take 1 (drop 3 s) @ take 3 (drop 4 s) @ take 5 (drop 7 s) @ drop 12 s"
    using assms(2) c(1)[of 3 0] c(1)[of 1 3] c(1)[of 3 4] c(1)[of 5 7] c(2)[of 12]
    by (simp add: IsbnService_formatIsbn13_def substring_def Isbn_clean_append Isbn_clean_hyphen
        del: append_Cons)
  also have "\<dots> = s"
  proof -
    have "take 5 (drop 7 s) @ drop 12 s = drop 7 s"
      using append_take_drop_id[of 5 "drop 7 s"] by simp
    then have "take 3 (drop 4 s) @ take 5 (drop 7 s) @ drop 12 s = drop 4 s"
      using append_take_drop_id[of 3 "drop 4 s"] by simp
    then have "take 1 (drop 3 s) @ take 3 (drop 4 s) @ take 5 (drop 7 s) @ drop 12 s = drop 3 s"
      using append_take_drop_id[of 1 "drop 3 s"] by simp
    then show ?thesis using append_take_drop_id[of 3 s] by simp
  qed
  finally show ?thesis .
qed

lemma Isbn_finish10:
  assumes "all_digits d" and "length d = 9"
  shows "IsbnService_validate (IsbnService_formatIsbn10
           (d @ IsbnService_calculateIsbn10CheckDigit (IsbnService_isbn10_sum d))) \<and>
         startsWith (IsbnService_cleanInput (IsbnService_formatIsbn10
           (d @ IsbnService_calculateIsbn10CheckDigit (IsbnService_isbn10_sum d)))) d"
proof -
  from Isbn10_sum_some[OF assms] obtain w where w: "IsbnService_isbn10_sum d = Some w" by blast
  from Isbn10_check_char[of w] obtain c where
    c: "IsbnService_calculateIsbn10CheckDigit (Some w) = [c]" "is_digit c \<or> c = CHR ''X''" by blast
  define s where "s = d @ [c]"
  have a: "list_all (\<lambda>c. is_digit c \<or> c = CHR ''X'') s"
    using assms(1) c(2) by (auto simp: s_def all_digits_def list_all_iff)
  have l: "length s = 10" using assms(2) by (simp add: s_def)
  have cl: "IsbnService_cleanInput (IsbnService_formatIsbn10 s) = s"
    using a l by (rule Isbn_clean_format10)
  have sm: "IsbnService_isbn10_sum s = Some w"
    unfolding s_def using Isbn10_sum_append[OF assms(2)] w by simp
  have "s ! 9 = c" using assms(2) by (simp add: s_def nth_append)
  then have "IsbnService_validateIsbn10 s"
    using a l sm c(1) by (simp add: IsbnService_validateIsbn10_def regex_digits_or_X_exact_def)
  then have "IsbnService_validate (IsbnService_formatIsbn10 s)"
    using l by (simp add: IsbnService_validate_def cl)
  moreover have "startsWith (IsbnService_cleanInput (IsbnService_formatIsbn10 s)) d"
    by (simp add: cl) (simp add: s_def startsWith_append)
  ultimately show ?thesis by (simp add: w c(1) s_def)
qed

lemma startsWith_longer:
  "length q \<le> length d \<Longrightarrow> startsWith (d @ x) q = startsWith d q"
  by (simp add: startsWith_def)

lemma Isbn_finish13:
  assumes "all_digits d" and "length d = 12" and "startsWith d ''978'' \<or> startsWith d ''979''"
  shows "IsbnService_validate (IsbnService_formatIsbn13
           (d @ IsbnService_calculateIsbn13CheckDigit d)) \<and>
         startsWith (IsbnService_cleanInput (IsbnService_formatIsbn13
           (d @ IsbnService_calculateIsbn13CheckDigit d))) d"
proof -
  from Isbn13_sum_some[OF assms(1,2)] obtain w where w: "IsbnService_isbn13_sum d = Some w"
    by blast
  define k where "k = check_mod10 w"
  have k: "k < 10" by (simp add: k_def check_mod10_less)
  have ck: "IsbnService_calculateIsbn13CheckDigit d = [digit_char k]"
    using k by (simp add: IsbnService_calculateIsbn13CheckDigit_def w num_toString_def
        nat_toString_digit k_def)
  define s where "s = d @ [digit_char k]"
  have a: "all_digits s" "length s = 13"
    using assms(1,2) k by (simp_all add: s_def digit_char_props)
  have cl: "IsbnService_cleanInput (IsbnService_formatIsbn13 s) = s"
    using a by (rule Isbn_clean_format13)
  have sm: "IsbnService_isbn13_sum s = Some w"
    unfolding s_def using Isbn13_sum_append[OF assms(2)] w by simp
  have st: "startsWith s ''978'' \<or> startsWith s ''979''"
    unfolding s_def using assms(2,3) by (simp add: startsWith_longer)
  have "parseInt_at s 12 = Some k"
    using assms(2) k by (simp add: parseInt_at_def s_def nth_append parseInt_single digit_char_props)
  then have "IsbnService_validateIsbn13 s"
    using a st sm
    by (auto simp: IsbnService_validateIsbn13_def regex_digits_exact_def strict_eq_def k_def)
  then have "IsbnService_validate (IsbnService_formatIsbn13 s)"
    using a(2) by (simp add: IsbnService_validate_def cl)
  moreover have "startsWith (IsbnService_cleanInput (IsbnService_formatIsbn13 s)) d"
    by (simp add: cl) (simp add: s_def startsWith_append)
  ultimately show ?thesis by (simp add: ck s_def)
qed

section \<open>ISBN and TCKN: generation and its retry loops\<close>


lemma Isbn_groups_digits: "list_all all_digits IsbnService_COMMON_GROUPS"
  by (simp add: IsbnService_COMMON_GROUPS_def is_digit_def)

lemma Isbn_prefixes_digits:
  "list_all (\<lambda>p. all_digits p \<and> length p = 3 \<and> (p = ''978'' \<or> p = ''979''))
     IsbnService_COMMON_PREFIXES_ISBN13"
  by (simp add: IsbnService_COMMON_PREFIXES_ISBN13_def is_digit_def)

lemma Isbn10_pass_digits: "all_digits (concat (fst (IsbnService_generateIsbn10_pass g)))"
proof -
  have "IsbnService_COMMON_GROUPS \<noteq> []" by (simp add: IsbnService_COMMON_GROUPS_def)
  then have "all_digits (fst (getRandomElement IsbnService_COMMON_GROUPS g))"
    using getRandomElement_member[of IsbnService_COMMON_GROUPS g] Isbn_groups_digits
    by (simp add: list_all_iff)
  then show ?thesis
    by (simp add: IsbnService_generateIsbn10_pass_def split_def generateRandomDigits_digits)
qed

lemma Isbn13_pass_digits:
  "all_digits (concat (fst (IsbnService_generateIsbn13_pass g))) \<and>
   (\<exists>r. concat (fst (IsbnService_generateIsbn13_pass g)) = ''978'' @ r \<or>
        concat (fst (IsbnService_generateIsbn13_pass g)) = ''979'' @ r)"
proof -
  define g0 where "g0 = snd (getRandomElement IsbnService_COMMON_PREFIXES_ISBN13 g)"
  define p where "p = fst (getRandomElement IsbnService_COMMON_PREFIXES_ISBN13 g)"
  have "IsbnService_COMMON_PREFIXES_ISBN13 \<noteq> []"
    by (simp add: IsbnService_COMMON_PREFIXES_ISBN13_def)
  then have p: "all_digits p \<and> (p = ''978'' \<or> p = ''979'')"
    using getRandomElement_member[of IsbnService_COMMON_PREFIXES_ISBN13 g] Isbn_prefixes_digits
    by (simp add: list_all_iff p_def)
  have "IsbnService_COMMON_GROUPS \<noteq> []" by (simp add: IsbnService_COMMON_GROUPS_def)
  then have q: "all_digits (fst (getRandomElement IsbnService_COMMON_GROUPS g0))"
    using getRandomElement_member[of IsbnService_COMMON_GROUPS g0] Isbn_groups_digits
    by (simp add: list_all_iff)
  have c: "\<exists>r. concat (fst (IsbnService_generateIsbn13_pass g)) = p @ r \<and> all_digits r"
    using q
    by (simp add: IsbnService_generateIsbn13_pass_def split_def generateRandomDigits_digits
        p_def g0_def)
  then obtain r where r: "concat (fst (IsbnService_generateIsbn13_pass g)) = p @ r" "all_digits r"
    by blast
  have "all_digits (p @ r)" using p r(2) by simp
  moreover have "p @ r = ''978'' @ r \<or> p @ r = ''979'' @ r" using p by auto
  ultimately show ?thesis unfolding r(1) by blast
qed

lemma Isbn10_unfold:
  "IsbnService_generateIsbn10 g =
     (case IsbnService_generateIsbn10_pass g of (parts, g3) \<Rightarrow>
        if 9 < length (concat parts) then IsbnService_generateIsbn10 g3
        else Some (IsbnService_formatIsbn10
                     ((concat parts @ replicate (9 - length (concat parts)) CHR ''0'') @
                      IsbnService_calculateIsbn10CheckDigit (IsbnService_isbn10_sum
                        (concat parts @ replicate (9 - length (concat parts)) CHR ''0''))), g3))"
  by (subst IsbnService_generateIsbn10.simps)
    (simp add: IsbnService_generateIsbn10_pass_def split_def Let_def add.assoc)

lemma Isbn13_unfold:
  "IsbnService_generateIsbn13 g =
     (case IsbnService_generateIsbn13_pass g of (parts, g3) \<Rightarrow>
        if 12 < length (concat parts) then IsbnService_generateIsbn13 g3
        else Some (IsbnService_formatIsbn13
                     ((concat parts @ replicate (12 - length (concat parts)) CHR ''0'') @
                      IsbnService_calculateIsbn13CheckDigit
                        (concat parts @ replicate (12 - length (concat parts)) CHR ''0'')), g3))"
  by (subst IsbnService_generateIsbn13.simps)
    (simp add: IsbnService_generateIsbn13_pass_def split_def Let_def add.assoc)

lemma Isbn10_accepted_valid:
  assumes "\<not> 9 < length (concat (fst (IsbnService_generateIsbn10_pass g)))"
  shows "IsbnService_validate (IsbnService_formatIsbn10
     ((concat (fst (IsbnService_generateIsbn10_pass g)) @
        replicate (9 - length (concat (fst (IsbnService_generateIsbn10_pass g)))) CHR ''0'') @
      IsbnService_calculateIsbn10CheckDigit (IsbnService_isbn10_sum
        (concat (fst (IsbnService_generateIsbn10_pass g)) @
         replicate (9 - length (concat (fst (IsbnService_generateIsbn10_pass g)))) CHR ''0''))))"
proof -
  define c where "c = concat (fst (IsbnService_generateIsbn10_pass g))"
  define d where "d = c @ replicate (9 - length c) CHR ''0''"
  have "all_digits d" using Isbn10_pass_digits[of g] by (simp add: d_def c_def is_digit_def)
  moreover have "length d = 9" using assms by (simp add: d_def c_def)
  ultimately show ?thesis
    using Isbn_finish10[of d] by (simp add: d_def c_def)
qed

lemma Isbn13_accepted_valid:
  assumes "\<not> 12 < length (concat (fst (IsbnService_generateIsbn13_pass g)))"
  shows "IsbnService_validate (IsbnService_formatIsbn13
     ((concat (fst (IsbnService_generateIsbn13_pass g)) @
        replicate (12 - length (concat (fst (IsbnService_generateIsbn13_pass g)))) CHR ''0'') @
      IsbnService_calculateIsbn13CheckDigit
        (concat (fst (IsbnService_generateIsbn13_pass g)) @
         replicate (12 - length (concat (fst (IsbnService_generateIsbn13_pass g)))) CHR ''0'')))"
proof -
  define c where "c = concat (fst (IsbnService_generateIsbn13_pass g))"
  define d where "d = c @ replicate (12 - length c) CHR ''0''"
  have "all_digits d" using Isbn13_pass_digits[of g] by (simp add: d_def c_def is_digit_def)
  moreover have "length d = 12" using assms by (simp add: d_def c_def)
  moreover have "startsWith d ''978'' \<or> startsWith d ''979''"
    using Isbn13_pass_digits[of g] by (auto simp: d_def c_def startsWith_def)
  ultimately show ?thesis
    using Isbn_finish13[of d] by (simp add: d_def c_def)
qed

lemma Isbn10_generate_valid:
  "IsbnService_generateIsbn10 g = Some y \<Longrightarrow> IsbnService_validate (fst y)"
proof (induction rule: IsbnService_generateIsbn10.raw_induct[rotated 1, consumes 1])
  case (1 gen g y)
  show ?case
  proof (cases "9 < length (concat (fst (IsbnService_generateIsbn10_pass g)))")
    case True
    with 1(2) have "gen (snd (IsbnService_generateIsbn10_pass g)) = Some y"
      by (simp add: IsbnService_generateIsbn10_pass_def split_def Let_def add.assoc)
    then show ?thesis by (rule 1(1))
  next
    case False
    with 1(2) have "fst y = IsbnService_formatIsbn10
     ((concat (fst (IsbnService_generateIsbn10_pass g)) @
        replicate (9 - length (concat (fst (IsbnService_generateIsbn10_pass g)))) CHR ''0'') @
      IsbnService_calculateIsbn10CheckDigit (IsbnService_isbn10_sum
        (concat (fst (IsbnService_generateIsbn10_pass g)) @
         replicate (9 - length (concat (fst (IsbnService_generateIsbn10_pass g)))) CHR ''0'')))"
      by (auto simp: IsbnService_generateIsbn10_pass_def split_def Let_def add.assoc)
    with Isbn10_accepted_valid[OF False] show ?thesis by simp
  qed
qed

lemma Isbn13_generate_valid:
  "IsbnService_generateIsbn13 g = Some y \<Longrightarrow> IsbnService_validate (fst y)"
proof (induction rule: IsbnService_generateIsbn13.raw_induct[rotated 1, consumes 1])
  case (1 gen g y)
  show ?case
  proof (cases "12 < length (concat (fst (IsbnService_generateIsbn13_pass g)))")
    case True
    with 1(2) have "gen (snd (IsbnService_generateIsbn13_pass g)) = Some y"
      by (simp add: IsbnService_generateIsbn13_pass_def split_def Let_def add.assoc)
    then show ?thesis by (rule 1(1))
  next
    case False
    with 1(2) have "fst y = IsbnService_formatIsbn13
     ((concat (fst (IsbnService_generateIsbn13_pass g)) @
        replicate (12 - length (concat (fst (IsbnService_generateIsbn13_pass g)))) CHR ''0'') @
      IsbnService_calculateIsbn13CheckDigit
        (concat (fst (IsbnService_generateIsbn13_pass g)) @
         replicate (12 - length (concat (fst (IsbnService_generateIsbn13_pass g)))) CHR ''0''))"
      by (auto simp: IsbnService_generateIsbn13_pass_def split_def Let_def add.assoc)
    with Isbn13_accepted_valid[OF False] show ?thesis by simp
  qed
qed

lemma Isbn_generate_valid:
  "IsbnService_generate g = Some y \<Longrightarrow> IsbnService_validate (fst y)"
  using Isbn10_generate_valid Isbn13_generate_valid
  by (auto simp: IsbnService_generate_def split_def split: if_splits)

lemma Isbn10_returns:
  "IsbnService_generateIsbn10_accepts n g \<Longrightarrow> \<exists>y. IsbnService_generateIsbn10 g = Some y"
proof (induction n arbitrary: g)
  case 0
  then show ?case
    by (subst Isbn10_unfold) (simp add: IsbnService_generateIsbn10_accepts_def split_def)
next
  case (Suc n)
  show ?case
  proof (cases "9 < length (concat (fst (IsbnService_generateIsbn10_pass g)))")
    case False
    then show ?thesis by (subst Isbn10_unfold) (simp add: split_def)
  next
    case True
    have "IsbnService_generateIsbn10_accepts n (snd (IsbnService_generateIsbn10_pass g))"
      using Suc.prems funpow_swap1[of "\<lambda>h. snd (IsbnService_generateIsbn10_pass h)" n g]
      by (simp add: IsbnService_generateIsbn10_accepts_def)
    from Suc.IH[OF this] show ?thesis
      using True by (subst Isbn10_unfold) (simp add: split_def)
  qed
qed

lemma Isbn13_returns:
  "IsbnService_generateIsbn13_accepts n g \<Longrightarrow> \<exists>y. IsbnService_generateIsbn13 g = Some y"
proof (induction n arbitrary: g)
  case 0
  then show ?case
    by (subst Isbn13_unfold) (simp add: IsbnService_generateIsbn13_accepts_def split_def)
next
  case (Suc n)
  show ?case
  proof (cases "12 < length (concat (fst (IsbnService_generateIsbn13_pass g)))")
    case False
    then show ?thesis by (subst Isbn13_unfold) (simp add: split_def)
  next
    case True
    have "IsbnService_generateIsbn13_accepts n (snd (IsbnService_generateIsbn13_pass g))"
      using Suc.prems funpow_swap1[of "\<lambda>h. snd (IsbnService_generateIsbn13_pass h)" n g]
      by (simp add: IsbnService_generateIsbn13_accepts_def)
    from Suc.IH[OF this] show ?thesis
      using True by (subst Isbn13_unfold) (simp add: split_def)
  qed
qed

lemma Isbn_generate_returns:
  "IsbnService_generate_accepts n g \<Longrightarrow> \<exists>y. IsbnService_generate g = Some y"
  using Isbn10_returns Isbn13_returns
  by (auto simp: IsbnService_generate_def IsbnService_generate_accepts_def split_def
      split: if_splits)

lemma Tckn_unfold:
  "TcknService_generate g =
     (case TcknService_generate_pass g of (prefix, g2) \<Rightarrow>
        if prefix \<in> set TcknService_INVALID_PREFIXES then TcknService_generate g2
        else Some (TcknService_complete prefix, g2))"
  by (subst TcknService_generate.simps) (simp add: TcknService_generate_pass_def split_def Let_def)

lemma Tckn_returns:
  "TcknService_generate_accepts n g \<Longrightarrow> \<exists>y. TcknService_generate g = Some y"
proof (induction n arbitrary: g)
  case 0
  then show ?case
    by (subst Tckn_unfold) (simp add: TcknService_generate_accepts_def split_def)
next
  case (Suc n)
  show ?case
  proof (cases "fst (TcknService_generate_pass g) \<in> set TcknService_INVALID_PREFIXES")
    case False
    then show ?thesis by (subst Tckn_unfold) (simp add: split_def)
  next
    case True
    have "TcknService_generate_accepts n (snd (TcknService_generate_pass g))"
      using Suc.prems funpow_swap1[of "\<lambda>h. snd (TcknService_generate_pass h)" n g]
      by (simp add: TcknService_generate_accepts_def)
    from Suc.IH[OF this] show ?thesis
      using True by (subst Tckn_unfold) (simp add: split_def)
  qed
qed

lemma zero_Math_random: "Math_random (\<lambda>i. unit_of 0) = (0, \<lambda>i. unit_of 0)"
  by (simp add: Math_random_def unit_of_def Abs_unit_interval_inverse)

lemma zero_random_floor: "random_floor n (\<lambda>i. unit_of 0) = (0, \<lambda>i. unit_of 0)"
  by (simp add: random_floor_def zero_Math_random)

lemma zero_random_digits:
  "random_digits n (\<lambda>i. unit_of 0) = (replicate n CHR ''0'', \<lambda>i. unit_of 0)"
  by (induction n) (simp_all add: zero_random_floor nat_toString_digit digit_char_def)

lemma zero_accepts:
  "TcknService_generate_accepts 0 (\<lambda>i. unit_of 0)"
  "IsbnService_generate_accepts 0 (\<lambda>i. unit_of 0)"
proof -
  have "fst (TcknService_generate_pass (\<lambda>i. unit_of 0)) = ''100000000''"
    by (simp add: TcknService_generate_pass_def zero_random_floor zero_random_digits
        nat_toString_digit digit_char_def numeral_eq_Suc)
  then show "TcknService_generate_accepts 0 (\<lambda>i. unit_of 0)"
    by (simp add: TcknService_generate_accepts_def TcknService_INVALID_PREFIXES_def)
  have "fst (IsbnService_generateIsbn13_pass (\<lambda>i. unit_of 0)) = [''978'', ''0'', ''00'', ''000'']"
    by (simp add: IsbnService_generateIsbn13_pass_def getRandomElement_def zero_random_floor
        zero_random_digits generateRandomDigits_def IsbnService_COMMON_PREFIXES_ISBN13_def
        IsbnService_COMMON_GROUPS_def numeral_eq_Suc)
  then show "IsbnService_generate_accepts 0 (\<lambda>i. unit_of 0)"
    by (simp add: IsbnService_generate_accepts_def zero_Math_random
        IsbnService_generateIsbn13_accepts_def)
qed

section \<open>ISBN: completion\<close>


lemma Isbn_completeAsIsbn10_valid:
  assumes "all_digits p" and "length p \<le> 9"
  shows "IsbnService_validate (fst (IsbnService_completeAsIsbn10 p g)) \<and>
         startsWith (IsbnService_cleanInput (fst (IsbnService_completeAsIsbn10 p g))) p"
proof (cases "length p = 9")
  case True
  then have "fst (IsbnService_completeAsIsbn10 p g) =
      IsbnService_formatIsbn10 (p @ IsbnService_calculateIsbn10CheckDigit (IsbnService_isbn10_sum p))"
    by (simp add: IsbnService_completeAsIsbn10_def Let_def padEnd_def)
  with Isbn_finish10[OF assms(1) True] show ?thesis by simp
next
  case False
  then have n: "nat (9 - int (length p)) = 9 - length p" "\<not> 9 - int (length p) \<le> 0"
    using assms(2) by simp_all
  obtain ds g' where ds: "generateRandomDigits (9 - length p) None g = (ds, g')"
    by (cases "generateRandomDigits (9 - length p) None g")
  from generateRandomDigits_exact[OF ds] have d: "all_digits (p @ ds)" "length (p @ ds) = 9"
    using assms by simp_all
  have "fst (IsbnService_completeAsIsbn10 p g) =
      IsbnService_formatIsbn10 ((p @ ds) @
        IsbnService_calculateIsbn10CheckDigit (IsbnService_isbn10_sum (p @ ds)))"
    using n ds by (simp add: IsbnService_completeAsIsbn10_def Let_def)
  with Isbn_finish10[OF d] show ?thesis
    using startsWith_trans_append[of _ p ds] by simp
qed

lemma startsWith_length:
  assumes "startsWith s q"
  shows "length q \<le> length s"
proof -
  from assms have "length (take (length q) s) = length q" by (simp only: startsWith_def)
  then show ?thesis by simp
qed

lemma startsWith_take:
  "length q \<le> n \<Longrightarrow> startsWith (take n s) q = startsWith s q"
  by (simp add: startsWith_def min_def)

lemma Isbn_completeAsIsbn13_valid:
  assumes "all_digits p" and "length p \<le> 12"
  shows "IsbnService_validate (fst (IsbnService_completeAsIsbn13 p g)) \<and>
         startsWith (IsbnService_cleanInput (fst (IsbnService_completeAsIsbn13 p g)))
           (if startsWith p ''978'' \<or> startsWith p ''979'' then p else take 12 (''978'' @ p))"
proof -
  define w where "w = (if \<not> startsWith p ''978'' \<and> \<not> startsWith p ''979'' then ''978'' @ p else p)"
  have w: "all_digits w" using assms(1) by (simp add: w_def is_digit_def)
  have sw: "startsWith w ''978'' \<or> startsWith w ''979''"
    by (auto simp: w_def) (simp add: startsWith_def)
  have e: "(if startsWith p ''978'' \<or> startsWith p ''979'' then p else take 12 (''978'' @ p)) =
           take 12 w"
    using assms(2) by (auto simp: w_def)
  show ?thesis
  proof (cases "12 \<le> length w")
    case True
    define d where "d = take 12 w"
    have d: "all_digits d" "length d = 12"
      using w True by (simp_all add: d_def all_digits_take)
    have st: "startsWith d ''978'' \<or> startsWith d ''979''"
      using sw by (simp add: d_def startsWith_take)
    have "fst (IsbnService_completeAsIsbn13 p g) =
        IsbnService_formatIsbn13 (d @ IsbnService_calculateIsbn13CheckDigit d)"
      using True by (simp add: IsbnService_completeAsIsbn13_def Let_def w_def[symmetric]
          substring_def d_def)
    with Isbn_finish13[OF d st] show ?thesis
      unfolding e d_def by simp
  next
    case False
    then have n: "nat (12 - int (length w)) = 12 - length w" "\<not> 12 - int (length w) \<le> 0"
      by simp_all
    have tw: "take 12 w = w" using False by simp
    obtain ds g' where ds: "generateRandomDigits (12 - length w) None g = (ds, g')"
      by (cases "generateRandomDigits (12 - length w) None g")
    from generateRandomDigits_exact[OF ds] have d: "all_digits (w @ ds)" "length (w @ ds) = 12"
      using w False by simp_all
    have "3 \<le> length w" using sw startsWith_length[of w "''978''"] startsWith_length[of w "''979''"]
      by auto
    then have st: "startsWith (w @ ds) ''978'' \<or> startsWith (w @ ds) ''979''"
      using sw by (simp add: startsWith_longer)
    have "fst (IsbnService_completeAsIsbn13 p g) =
        IsbnService_formatIsbn13 ((w @ ds) @ IsbnService_calculateIsbn13CheckDigit (w @ ds))"
      using n ds by (simp add: IsbnService_completeAsIsbn13_def Let_def w_def[symmetric])
    with Isbn_finish13[OF d st] show ?thesis
      unfolding e tw using startsWith_trans_append[of _ w ds] by simp
  qed
qed

lemma Isbn_complete_valid:
  assumes "all_digits (IsbnService_cleanInput input)"
    and "fst (IsbnService_complete input g) = Inr s"
  shows "IsbnService_validate s \<and>
         startsWith (IsbnService_cleanInput s)
           (if length (IsbnService_cleanInput input) < 10 \<or>
               startsWith (IsbnService_cleanInput input) ''978'' \<or>
               startsWith (IsbnService_cleanInput input) ''979''
            then IsbnService_cleanInput input
            else take 12 (''978'' @ IsbnService_cleanInput input))"
proof -
  define p where "p = IsbnService_cleanInput input"
  consider "length p < 10" "s = fst (IsbnService_completeAsIsbn10 p g)"
    | "10 \<le> length p" "length p < 13" "s = fst (IsbnService_completeAsIsbn13 p g)"
    using assms(2)
    by (auto simp: IsbnService_complete_def Let_def p_def[symmetric] split_def split: if_splits)
  then show ?thesis
  proof cases
    case 1
    with Isbn_completeAsIsbn10_valid[of p g] assms(1) show ?thesis
      unfolding p_def by simp
  next
    case 2
    with Isbn_completeAsIsbn13_valid[of p g] assms(1) show ?thesis
      unfolding p_def by (cases "startsWith (IsbnService_cleanInput input) ''978'' \<or>
          startsWith (IsbnService_cleanInput input) ''979''") simp_all
  qed
qed

section \<open>The round trips of generation and completion\<close>

lemma CC_letters_example:
  "fst (CreditCardService_complete ''4abc'' (\<lambda>i. unit_of 0)) = Inr ''4abc00000000NaN'' \<and>
   \<not> CreditCardService_validate ''4abc00000000NaN''"
proof -
  have c: "CreditCardService_cleanInput ''4abc'' = ''4abc''"
    by (simp add: CreditCardService_cleanInput_def is_space_def)
  have p: "pad_random 12 ''4abc'' (\<lambda>i. unit_of 0) = (''4abc00000000'', \<lambda>i. unit_of 0)"
    by (simp add: pad_random_eq zero_random_digits numeral_eq_Suc)
  have l: "CreditCardService_calculateLuhnCheckDigit ''4abc00000000'' = ''NaN''"
    by (simp add: CreditCardService_calculateLuhnCheckDigit_def parseInt_single is_digit_def
        digit_val_def nan_add_def num_toString_def Let_def)
  have f: "CreditCardService_formatCardNumber ''4abc00000000NaN'' = ''4abc00000000NaN''"
    by (simp add: CreditCardService_formatCardNumber_def is_digit_def)
  have 1: "fst (CreditCardService_complete ''4abc'' (\<lambda>i. unit_of 0)) = Inr ''4abc00000000NaN''"
    by (simp add: CreditCardService_complete_def c Let_def detect_visa p l f)
  have c2: "CreditCardService_cleanInput ''4abc00000000NaN'' = ''4abc00000000NaN''"
    by (simp add: CreditCardService_cleanInput_def is_space_def)
  have 2: "\<not> CreditCardService_validate ''4abc00000000NaN''"
    by (simp add: CreditCardService_validate_def c2 regex_digits_plus_def is_digit_def)
  from 1 2 show ?thesis by blast
qed


text \<open>
  C2. Every string that a service's \<^verbatim>\<open>generate\<close> returns passes the same service's
  \<^verbatim>\<open>validate\<close>, whatever the random source yields. \<^verbatim>\<open>VknService\<close>, \<^verbatim>\<open>IbanService\<close>,
  \<^verbatim>\<open>CreditCardService\<close>, \<^verbatim>\<open>ImeiService\<close> and \<^verbatim>\<open>EanService\<close> return on every source.
  \<^verbatim>\<open>TcknService.generate\<close> and \<^verbatim>\<open>IsbnService.generate\<close> draw again while the drawn parts
  are rejected: they return as soon as one pass is accepted, and what they return is valid.
\<close>

theorem generate_always_validates:
  "(\<forall>y. TcknService_generate g = Some y \<longrightarrow> (\<exists>s. fst y = Inr s \<and> TcknService_validate s)) \<and>
   (TcknService_generate_accepts n g \<longrightarrow> (\<exists>y. TcknService_generate g = Some y)) \<and>
   (\<exists>s. fst (VknService_generate g) = Inr s \<and> VknService_validate s) \<and>
   IbanService_validate (fst (IbanService_generate g)) \<and>
   (\<exists>s. fst (CreditCardService_generate g) = Inr s \<and> CreditCardService_validate s) \<and>
   ImeiService_validate (fst (ImeiService_generate g)) \<and>
   (\<forall>y. IsbnService_generate g = Some y \<longrightarrow> IsbnService_validate (fst y)) \<and>
   (IsbnService_generate_accepts n g \<longrightarrow> (\<exists>y. IsbnService_generate g = Some y)) \<and>
   EanService_validate (fst (EanService_generate g))"
proof -
  have 1: "\<forall>y. TcknService_generate g = Some y \<longrightarrow> (\<exists>s. fst y = Inr s \<and> TcknService_validate s)"
    using Tckn_generate_valid by blast
  have 2: "TcknService_generate_accepts n g \<longrightarrow> (\<exists>y. TcknService_generate g = Some y)"
    using Tckn_returns by blast
  have 3: "\<forall>y. IsbnService_generate g = Some y \<longrightarrow> IsbnService_validate (fst y)"
    using Isbn_generate_valid by blast
  have 4: "IsbnService_generate_accepts n g \<longrightarrow> (\<exists>y. IsbnService_generate g = Some y)"
    using Isbn_generate_returns by blast
  from 1 2 3 4 Vkn_generate_valid[of g] Iban_generate_valid[of g] CC_generate_valid[of g]
    Imei_generate_valid[of g] Ean_generate_valid[of g]
  show ?thesis by blast
qed

theorem generate_always_validates_witness:
  "TcknService_generate (\<lambda>i. unit_of 0) = Some (Inr ''10000000078'', \<lambda>i. unit_of 0) \<and>
   TcknService_validate ''10000000078'' \<and>
   (\<exists>y. IsbnService_generate (\<lambda>i. unit_of 0) = Some y \<and> IsbnService_validate (fst y)) \<and>
   (\<exists>s. fst (VknService_generate (\<lambda>i. unit_of 0)) = Inr s \<and> VknService_validate s) \<and>
   IbanService_validate (fst (IbanService_generate (\<lambda>i. unit_of 0))) \<and>
   (\<exists>s. fst (CreditCardService_generate (\<lambda>i. unit_of 0)) = Inr s \<and>
        CreditCardService_validate s) \<and>
   ImeiService_validate (fst (ImeiService_generate (\<lambda>i. unit_of 0))) \<and>
   EanService_validate (fst (EanService_generate (\<lambda>i. unit_of 0)))"
proof -
  note t = generate_always_validates[of "\<lambda>i. unit_of 0" 0]
  have p: "TcknService_generate_pass (\<lambda>i. unit_of 0) = (''100000000'', \<lambda>i. unit_of 0)"
    by (simp add: TcknService_generate_pass_def zero_random_floor zero_random_digits
        nat_toString_digit digit_char_def numeral_eq_Suc)
  have c: "TcknService_complete ''100000000'' = Inr ''10000000078''"
    by (simp add: TcknService_complete_def TcknService_validatePrefix_def regex_digits_exact_def
      all_digits_def is_digit_def TcknService_INVALID_PREFIXES_def
      TcknService_calculateCheckDigits_def parseInt_at_def parseInt_single digit_val_def
      nan_add_def num_toString_def nat_toString_digit digit_char_def)
  have a: "TcknService_generate (\<lambda>i. unit_of 0) = Some (Inr ''10000000078'', \<lambda>i. unit_of 0)"
    by (subst Tckn_unfold) (simp add: p c TcknService_INVALID_PREFIXES_def)
  with t have b: "TcknService_validate ''10000000078''" by auto
  from t zero_accepts(2) obtain y where y: "IsbnService_generate (\<lambda>i. unit_of 0) = Some y"
    by blast
  with t have "IsbnService_validate (fst y)" by blast
  with y have i: "\<exists>y. IsbnService_generate (\<lambda>i. unit_of 0) = Some y \<and> IsbnService_validate (fst y)"
    by blast
  from a b i t show ?thesis by blast
qed

text \<open>
  C1, as the code has it. The string that \<^verbatim>\<open>complete\<close> returns starts with the prefix and
  passes \<^verbatim>\<open>validate\<close> for every prefix that \<^verbatim>\<open>TcknService\<close> and \<^verbatim>\<open>VknService\<close> accept, and
  for every prefix that \<^verbatim>\<open>CreditCardService\<close>, \<^verbatim>\<open>ImeiService\<close> and \<^verbatim>\<open>EanService\<close> accept
  and that holds only digits once cleaned (the result is compared without its separators).
  For \<^verbatim>\<open>IsbnService\<close> and an accepted prefix of digits the result passes \<^verbatim>\<open>validate\<close>; it
  starts with the cleaned prefix when that is shorter than 10 digits or starts with 978 or
  979, and otherwise with 978 followed by the first nine digits of the prefix.
  \<^verbatim>\<open>IbanService.complete\<close> returns a valid IBAN when the cleaned prefix starts with TR and is
  shorter than 26 characters, an IBAN drawn afresh that keeps nothing of the prefix but TR.
\<close>

theorem complete_round_trip:
  "(TcknService_complete p = Inr s \<longrightarrow> startsWith s p \<and> TcknService_validate s) \<and>
   (VknService_complete p = Inr s \<longrightarrow> startsWith s p \<and> VknService_validate s) \<and>
   (all_digits (CreditCardService_cleanInput p) \<and> fst (CreditCardService_complete p g) = Inr s \<longrightarrow>
      startsWith (CreditCardService_cleanInput s) (CreditCardService_cleanInput p) \<and>
      CreditCardService_validate s) \<and>
   (all_digits (ImeiService_cleanInput p) \<and> fst (ImeiService_complete p g) = Inr s \<longrightarrow>
      startsWith (ImeiService_cleanInput s) (ImeiService_cleanInput p) \<and> ImeiService_validate s) \<and>
   (all_digits (EanService_cleanInput p) \<and> fst (EanService_complete p g) = Inr s \<longrightarrow>
      startsWith (EanService_cleanInput s) (EanService_cleanInput p) \<and> EanService_validate s) \<and>
   (all_digits (IsbnService_cleanInput p) \<and> fst (IsbnService_complete p g) = Inr s \<longrightarrow>
      IsbnService_validate s \<and>
      startsWith (IsbnService_cleanInput s)
        (if length (IsbnService_cleanInput p) < 10 \<or> startsWith (IsbnService_cleanInput p) ''978'' \<or>
            startsWith (IsbnService_cleanInput p) ''979''
         then IsbnService_cleanInput p else take 12 (''978'' @ IsbnService_cleanInput p))) \<and>
   (startsWith (toUpperCase (remove_whitespace p)) ''TR'' \<and>
    length (toUpperCase (remove_whitespace p)) < 26 \<longrightarrow>
      IbanService_validate (fst (IbanService_complete p g)) \<and>
      fst (IbanService_complete p g) = fst (IbanService_complete ''TR'' g))"
proof -
  have 1: "TcknService_complete p = Inr s \<longrightarrow> startsWith s p \<and> TcknService_validate s"
    using Tckn_complete_valid by blast
  have 2: "VknService_complete p = Inr s \<longrightarrow> startsWith s p \<and> VknService_validate s"
    using Vkn_complete_valid by blast
  have 3: "all_digits (CreditCardService_cleanInput p) \<and>
      fst (CreditCardService_complete p g) = Inr s \<longrightarrow>
      startsWith (CreditCardService_cleanInput s) (CreditCardService_cleanInput p) \<and>
      CreditCardService_validate s"
    using CC_complete_valid by blast
  have 4: "all_digits (ImeiService_cleanInput p) \<and> fst (ImeiService_complete p g) = Inr s \<longrightarrow>
      startsWith (ImeiService_cleanInput s) (ImeiService_cleanInput p) \<and> ImeiService_validate s"
    using Imei_complete_valid by blast
  have 5: "all_digits (EanService_cleanInput p) \<and> fst (EanService_complete p g) = Inr s \<longrightarrow>
      startsWith (EanService_cleanInput s) (EanService_cleanInput p) \<and> EanService_validate s"
    using Ean_complete_valid by blast
  have 6: "all_digits (IsbnService_cleanInput p) \<and> fst (IsbnService_complete p g) = Inr s \<longrightarrow>
      IsbnService_validate s \<and>
      startsWith (IsbnService_cleanInput s)
        (if length (IsbnService_cleanInput p) < 10 \<or> startsWith (IsbnService_cleanInput p) ''978'' \<or>
            startsWith (IsbnService_cleanInput p) ''979''
         then IsbnService_cleanInput p else take 12 (''978'' @ IsbnService_cleanInput p))"
    using Isbn_complete_valid[of p g s] by blast
  have 7: "startsWith (toUpperCase (remove_whitespace p)) ''TR'' \<and>
    length (toUpperCase (remove_whitespace p)) < 26 \<longrightarrow>
      IbanService_validate (fst (IbanService_complete p g)) \<and>
      fst (IbanService_complete p g) = fst (IbanService_complete ''TR'' g)"
    using Iban_complete_fresh_valid[of p g] by blast
  from 1 2 3 4 5 6 7 show ?thesis by blast
qed

theorem complete_round_trip_witness:
  "startsWith ''12345678950'' ''123456789'' \<and> TcknService_validate ''12345678950'' \<and>
   startsWith ''1234567890'' ''123456789'' \<and> VknService_validate ''1234567890'' \<and>
   (\<exists>s. fst (CreditCardService_complete ''4532-0151'' (\<lambda>i. unit_of 0)) = Inr s \<and>
        startsWith (CreditCardService_cleanInput s) ''45320151'' \<and> CreditCardService_validate s) \<and>
   (\<exists>s. fst (ImeiService_complete ''35-238708'' (\<lambda>i. unit_of 0)) = Inr s \<and>
        startsWith (ImeiService_cleanInput s) ''35238708'' \<and> ImeiService_validate s) \<and>
   (\<exists>s. fst (EanService_complete ''1234-567'' (\<lambda>i. unit_of 0)) = Inr s \<and>
        startsWith (EanService_cleanInput s) ''1234567'' \<and> EanService_validate s) \<and>
   (\<exists>s. fst (IsbnService_complete ''978-0'' (\<lambda>i. unit_of 0)) = Inr s \<and>
        startsWith (IsbnService_cleanInput s) ''9780'' \<and> IsbnService_validate s) \<and>
   (\<exists>s. fst (IsbnService_complete ''1234567890'' (\<lambda>i. unit_of 0)) = Inr s \<and>
        startsWith (IsbnService_cleanInput s) ''978123456789'' \<and> IsbnService_validate s) \<and>
   IbanService_validate (fst (IbanService_complete ''tr12'' (\<lambda>i. unit_of 0)))"
proof -
  have t1: "TcknService_complete ''123456789'' = Inr ''12345678950''"
    by (rule Tckn_complete_example)
  have 1: "startsWith ''12345678950'' ''123456789'' \<and> TcknService_validate ''12345678950''"
    using complete_round_trip[of "''123456789''" "''12345678950''" "\<lambda>i. unit_of 0"] t1 by blast
  have t2: "VknService_complete ''123456789'' = Inr ''1234567890''"
    by (simp add: VknService_complete_def VknService_validatePrefix_def regex_digits_exact_def
        is_digit_def Vkn_example num_toString_def nat_toString_digit digit_char_def)
  have 2: "startsWith ''1234567890'' ''123456789'' \<and> VknService_validate ''1234567890''"
    using complete_round_trip[of "''123456789''" "''1234567890''" "\<lambda>i. unit_of 0"] t2 by blast
  have c3: "CreditCardService_cleanInput ''4532-0151'' = ''45320151''"
    by (simp add: CreditCardService_cleanInput_def is_space_def)
  have d3: "all_digits ''45320151''" by (simp add: is_digit_def)
  from CC_visa_complete[of "''4532-0151''" "\<lambda>i. unit_of 0"] c3 d3 obtain s3 where
    s3: "fst (CreditCardService_complete ''4532-0151'' (\<lambda>i. unit_of 0)) = Inr s3"
    by (auto simp: startsWith_def)
  have 3: "\<exists>s. fst (CreditCardService_complete ''4532-0151'' (\<lambda>i. unit_of 0)) = Inr s \<and>
        startsWith (CreditCardService_cleanInput s) ''45320151'' \<and> CreditCardService_validate s"
    using complete_round_trip[of "''4532-0151''" s3 "\<lambda>i. unit_of 0"] s3 c3 d3 by auto
  have c4: "ImeiService_cleanInput ''35-238708'' = ''35238708''"
    by (simp add: ImeiService_cleanInput_def is_space_def)
  have d4: "all_digits ''35238708''" by (simp add: is_digit_def)
  obtain s4 where s4: "fst (ImeiService_complete ''35-238708'' (\<lambda>i. unit_of 0)) = Inr s4"
    by (simp add: ImeiService_complete_def c4 Let_def split_def)
  have 4: "\<exists>s. fst (ImeiService_complete ''35-238708'' (\<lambda>i. unit_of 0)) = Inr s \<and>
        startsWith (ImeiService_cleanInput s) ''35238708'' \<and> ImeiService_validate s"
    using complete_round_trip[of "''35-238708''" s4 "\<lambda>i. unit_of 0"] s4 c4 d4 by auto
  have c5: "EanService_cleanInput ''1234-567'' = ''1234567''"
    by (simp add: EanService_cleanInput_def is_space_def)
  have d5: "all_digits ''1234567''" by (simp add: is_digit_def)
  obtain s5 where s5: "fst (EanService_complete ''1234-567'' (\<lambda>i. unit_of 0)) = Inr s5"
    by (simp add: Ean_complete_routes c5 Let_def)
  have 5: "\<exists>s. fst (EanService_complete ''1234-567'' (\<lambda>i. unit_of 0)) = Inr s \<and>
        startsWith (EanService_cleanInput s) ''1234567'' \<and> EanService_validate s"
    using complete_round_trip[of "''1234-567''" s5 "\<lambda>i. unit_of 0"] s5 c5 d5 by auto
  have c6: "IsbnService_cleanInput ''978-0'' = ''9780''"
    by (simp add: IsbnService_cleanInput_def is_space_def toUpperCase_def to_upper_digit is_digit_def)
  have d6: "all_digits ''9780''" by (simp add: is_digit_def)
  obtain s6 where s6: "fst (IsbnService_complete ''978-0'' (\<lambda>i. unit_of 0)) = Inr s6"
    by (simp add: IsbnService_complete_def c6 Let_def split_def)
  have 6: "\<exists>s. fst (IsbnService_complete ''978-0'' (\<lambda>i. unit_of 0)) = Inr s \<and>
        startsWith (IsbnService_cleanInput s) ''9780'' \<and> IsbnService_validate s"
    using complete_round_trip[of "''978-0''" s6 "\<lambda>i. unit_of 0"] s6 c6 d6 by auto
  have c7: "IsbnService_cleanInput ''1234567890'' = ''1234567890''"
    by (simp add: IsbnService_cleanInput_def is_space_def toUpperCase_def to_upper_digit is_digit_def)
  have d7: "all_digits ''1234567890''" by (simp add: is_digit_def)
  obtain s7 where s7: "fst (IsbnService_complete ''1234567890'' (\<lambda>i. unit_of 0)) = Inr s7"
    by (simp add: IsbnService_complete_def c7 Let_def split_def)
  have 7: "\<exists>s. fst (IsbnService_complete ''1234567890'' (\<lambda>i. unit_of 0)) = Inr s \<and>
        startsWith (IsbnService_cleanInput s) ''978123456789'' \<and> IsbnService_validate s"
    using complete_round_trip[of "''1234567890''" s7 "\<lambda>i. unit_of 0"] s7 c7 d7
    by (auto simp: startsWith_def)
  have c8: "toUpperCase (remove_whitespace ''tr12'') = ''TR12''"
    by (simp add: toUpperCase_def remove_whitespace_def is_space_def to_upper_def)
  have h8: "startsWith (toUpperCase (remove_whitespace ''tr12'')) ''TR'' \<and>
      length (toUpperCase (remove_whitespace ''tr12'')) < 26"
    by (simp add: c8 startsWith_def)
  have 8: "IbanService_validate (fst (IbanService_complete ''tr12'' (\<lambda>i. unit_of 0)))"
    using complete_round_trip[of "''tr12''" "[]" "\<lambda>i. unit_of 0"] h8 by blast
  from 1 2 3 4 5 6 7 8 show ?thesis by blast
qed

theorem complete_round_trip_counterexample:
  "fst (IbanService_complete ''12345'' (\<lambda>i. unit_of 0)) = ''TR123450000000000000000000'' \<and>
   \<not> startsWith (remove_whitespace ''TR123450000000000000000000'') ''12345'' \<and>
   \<not> IbanService_validate ''TR123450000000000000000000'' \<and>
   fst (IsbnService_complete ''1234567890'' (\<lambda>i. unit_of 0)) = Inr ''978-1-234-56789-7'' \<and>
   \<not> startsWith (IsbnService_cleanInput ''978-1-234-56789-7'') ''1234567890'' \<and>
   fst (CreditCardService_complete ''4abc'' (\<lambda>i. unit_of 0)) = Inr ''4abc00000000NaN'' \<and>
   \<not> CreditCardService_validate ''4abc00000000NaN''"
proof -
  have c: "toUpperCase (remove_whitespace ''12345'') = ''12345''"
    by (simp add: toUpperCase_digits remove_whitespace_digits is_digit_def)
  have 1: "fst (IbanService_complete ''12345'' (\<lambda>i. unit_of 0)) = ''TR123450000000000000000000''"
    by (simp add: Iban_complete_cases c Let_def startsWith_def numeral_eq_Suc)
  have 2: "\<not> startsWith (remove_whitespace ''TR123450000000000000000000'') ''12345''"
    by (simp add: remove_whitespace_def is_space_def startsWith_def)
  have 3: "\<not> IbanService_validate ''TR123450000000000000000000''"
    unfolding Iban_validate_iff
    by (simp add: toUpperCase_def remove_whitespace_def is_space_def to_upper_def
      Iban_spec_valid_def regex_TR_24_digits_def regex_digits_exact_def all_digits_def
      is_digit_def Iban_spec_value_def Iban_spec_step_def is_upper_def
      Iban_spec_letter_code_def digit_val_def)
  have c7: "IsbnService_cleanInput ''1234567890'' = ''1234567890''"
    by (simp add: IsbnService_cleanInput_def is_space_def toUpperCase_def to_upper_digit is_digit_def)
  have k: "IsbnService_calculateIsbn13CheckDigit ''978123456789'' = ''7''"
    by (simp add: IsbnService_calculateIsbn13CheckDigit_def IsbnService_isbn13_sum_def upt_rec
        parseInt_at_def parseInt_single is_digit_def digit_val_def nan_add_def check_mod10_def
        num_toString_def nat_toString_digit digit_char_def)
  have 4: "fst (IsbnService_complete ''1234567890'' (\<lambda>i. unit_of 0)) = Inr ''978-1-234-56789-7''"
    by (simp add: IsbnService_complete_def c7 Let_def split_def IsbnService_completeAsIsbn13_def
        startsWith_def substring_def k IsbnService_formatIsbn13_def)
  have 5: "\<not> startsWith (IsbnService_cleanInput ''978-1-234-56789-7'') ''1234567890''"
    by (simp add: IsbnService_cleanInput_def is_space_def toUpperCase_def startsWith_def
        to_upper_digit is_digit_def)
  from 1 2 3 4 5 CC_letters_example show ?thesis by blast
qed

section \<open>EAN: the check digit of the specification and the unreachable UPC-A completion\<close>


lemma Ean_fold_value:
  "all_digits d \<Longrightarrow> \<forall>i \<in> set js. i < length d \<Longrightarrow>
   foldl (\<lambda>sumv i.
            (let weight = (if (length (map Number_char d) - i) mod 2 = 1 then 3 else 1)
             in nan_add sumv (map_option (\<lambda>x. x * weight) (map Number_char d ! i))))
     (Some a) js =
   Some (a + sum_list (map (\<lambda>i. digit_val (d ! i) * (if (length d - i) mod 2 = 1 then 3 else 1)) js))"
proof (induction js arbitrary: a)
  case Nil
  then show ?case by simp
next
  case (Cons j js)
  then have j: "j < length d" "is_digit (d ! j)"
    by (simp_all add: all_digits_def list_all_length)
  have rest: "\<forall>i \<in> set js. i < length d" using Cons.prems(2) by simp
  show ?case
    using Cons.IH[OF Cons.prems(1) rest] j
    by (simp add: Number_char_digit nan_add_def Let_def add.assoc)
qed

lemma sum_shift2:
  "(\<Sum>j<Suc (Suc n). f j) = f 0 + (f (Suc 0) + (\<Sum>j<n. f (Suc (Suc j))))" for f :: "nat \<Rightarrow> nat"
  by (simp only: sum.lessThan_Suc_shift)

lemma Ean_spec_weighted_sum:
  "Ean_spec_weighted r = (\<Sum>j<length r. r ! j * (if (Suc j) mod 2 = 1 then 3 else 1))"
proof -
  define w where "w = (\<lambda>k::nat. if k mod 2 = 1 then 3 else (1::nat))"
  have w: "w (Suc 0) = 3" "w 0 = 1" "\<And>k. w (Suc (Suc k)) = w k"
    by (simp_all add: w_def)
  have "Ean_spec_weighted r = (\<Sum>j<length r. r ! j * w (Suc j))"
  proof (induction r rule: Ean_spec_weighted.induct)
    case 1
    then show ?case by simp
  next
    case (2 a)
    then show ?case by (simp add: w)
  next
    case (3 a b r)
    have l: "length (a # b # r) = Suc (Suc (length r))" by simp
    have "(\<Sum>j<length (a # b # r). (a # b # r) ! j * w (Suc j)) =
          (a # b # r) ! 0 * w (Suc 0) + ((a # b # r) ! Suc 0 * w (Suc (Suc 0)) +
            (\<Sum>j<length r. (a # b # r) ! Suc (Suc j) * w (Suc (Suc (Suc j)))))"
      unfolding l by (rule sum_shift2)
    also have "\<dots> = 3 * a + (b + (\<Sum>j<length r. r ! j * w (Suc j)))"
      by (simp add: w)
    finally show ?case using 3 by simp
  qed
  then show ?thesis by (simp add: w_def)
qed

lemma Ean_weighted_rev:
  "sum_list (map (\<lambda>i. v ! i * (if (length v - i) mod 2 = 1 then 3 else 1)) [0..<length v]) =
   Ean_spec_weighted (rev v)"
proof -
  define n where "n = length v"
  define h where "h = (\<lambda>j. rev v ! j * (if (Suc j) mod 2 = 1 then 3 else (1::nat)))"
  have "sum_list (map (\<lambda>i. v ! i * (if (n - i) mod 2 = 1 then 3 else 1)) [0..<n]) =
        (\<Sum>i<n. v ! i * (if (n - i) mod 2 = 1 then 3 else 1))"
    by (simp add: interv_sum_list_conv_sum_set_nat atLeast0LessThan)
  also have "\<dots> = (\<Sum>i<n. h (n - Suc i))"
  proof (rule sum.cong)
    fix i assume "i \<in> {..<n}"
    then have i: "i < n" by simp
    then have "rev v ! (n - Suc i) = v ! i"
      by (simp add: rev_nth n_def)
    moreover have "Suc (n - Suc i) = n - i" using i by simp
    ultimately show "v ! i * (if (n - i) mod 2 = 1 then 3 else 1) = h (n - Suc i)"
      by (simp add: h_def)
  qed simp
  also have "\<dots> = (\<Sum>i<n. h i)" by (rule sum.nat_diff_reindex)
  also have "\<dots> = Ean_spec_weighted (rev v)"
    by (simp add: Ean_spec_weighted_sum h_def n_def)
  finally show ?thesis by (simp add: n_def)
qed

lemma Ean_weighted_spec:
  assumes "all_digits d"
  shows "EanService_weighted_sum (map Number_char d) =
         Some (Ean_spec_weighted (rev (map digit_val d)))"
proof -
  have "EanService_weighted_sum (map Number_char d) =
        Some (0 + sum_list (map (\<lambda>i. digit_val (d ! i) *
                (if (length d - i) mod 2 = 1 then 3 else 1)) [0..<length d]))"
    unfolding EanService_weighted_sum_def
    using Ean_fold_value[OF assms, of "[0..<length d]" 0] by simp
  also have "sum_list (map (\<lambda>i. digit_val (d ! i) *
                (if (length d - i) mod 2 = 1 then 3 else 1)) [0..<length d]) =
             sum_list (map (\<lambda>i. map digit_val d ! i *
                (if (length (map digit_val d) - i) mod 2 = 1 then 3 else 1))
                  [0..<length (map digit_val d)])"
    by (rule arg_cong[where f = sum_list]) (simp add: map_eq_conv)
  also have "\<dots> = Ean_spec_weighted (rev (map digit_val d))"
    by (rule Ean_weighted_rev)
  finally show ?thesis by simp
qed

lemma Ean_spec_check_digit_less: "Ean_spec_check_digit ds < 10"
  by (simp add: Ean_spec_check_digit_def)

lemma Ean_checksum_spec:
  assumes "all_digits d"
  shows "EanService_calculateChecksum d = [digit_char (Ean_spec_check_digit (map digit_val d))]"
  using Ean_spec_check_digit_less[of "map digit_val d"]
  by (simp add: EanService_calculateChecksum_def Ean_weighted_spec[OF assms] num_toString_def
      check_mod10_def Ean_spec_check_digit_def nat_toString_digit rev_map)

lemma Ean_completeAsEan8_data:
  assumes "all_digits p" and "length p \<le> 7"
  shows "\<exists>ds. all_digits ds \<and> length (p @ ds) = 7 \<and>
           fst (EanService_completeAsEan8 p g) =
             EanService_formatEan8 ((p @ ds) @ EanService_calculateChecksum (p @ ds))"
proof (cases "length p = 7")
  case True
  then have "fst (EanService_completeAsEan8 p g) =
      EanService_formatEan8 ((p @ []) @ EanService_calculateChecksum (p @ []))"
    by (simp add: EanService_completeAsEan8_def Let_def substring_def)
  with True show ?thesis by (intro exI[of _ "[]"]) simp
next
  case False
  then have n: "nat (7 - int (length p)) = 7 - length p" "\<not> 7 - int (length p) \<le> 0"
    using assms(2) by simp_all
  obtain ds g' where r: "generateRandomDigits (7 - length p) None g = (ds, g')"
    by (cases "generateRandomDigits (7 - length p) None g")
  from generateRandomDigits_exact[OF r] have ds: "length ds = 7 - length p" "all_digits ds"
    by simp_all
  have "fst (EanService_completeAsEan8 p g) =
      EanService_formatEan8 ((p @ ds) @ EanService_calculateChecksum (p @ ds))"
    using n r by (simp add: EanService_completeAsEan8_def Let_def)
  moreover have "length (p @ ds) = 7" using ds(1) assms(2) by simp
  ultimately show ?thesis using ds(2) by blast
qed

lemma Ean_completeAsEan8_spec:
  assumes "all_digits p" and "length p \<le> 7"
  shows "\<exists>ds. all_digits ds \<and> length (p @ ds) = 7 \<and>
           EanService_cleanInput (fst (EanService_completeAsEan8 p g)) =
             p @ ds @ [digit_char (Ean_spec_check_digit (map digit_val (p @ ds)))] \<and>
           EanService_validate (fst (EanService_completeAsEan8 p g))"
proof -
  from Ean_completeAsEan8_data[OF assms, of g] obtain ds where
    ds: "all_digits ds" "length (p @ ds) = 7"
      "fst (EanService_completeAsEan8 p g) =
         EanService_formatEan8 ((p @ ds) @ EanService_calculateChecksum (p @ ds))"
    by blast
  define d where "d = p @ ds"
  define k where "k = Ean_spec_check_digit (map digit_val d)"
  have d: "all_digits d" "length d = 7" using assms(1) ds(1,2) by (simp_all add: d_def)
  have c: "EanService_calculateChecksum d = [digit_char k]"
    unfolding k_def using d(1) by (rule Ean_checksum_spec)
  have "k < 10" by (simp add: k_def Ean_spec_check_digit_less)
  then have "regex_digits_exact 8 (d @ [digit_char k])"
    using d by (simp add: regex_digits_exact_def digit_char_props)
  then have cl: "EanService_cleanInput (EanService_formatEan8 (d @ [digit_char k])) =
      d @ [digit_char k]"
    by (rule Ean_clean_format8)
  have "regex_digits_exact 7 d" using d by (simp add: regex_digits_exact_def)
  then have v: "EanService_validate (EanService_formatEan8 (d @ EanService_calculateChecksum d))"
    by (rule Ean_finish8)
  have "EanService_cleanInput (fst (EanService_completeAsEan8 p g)) = p @ ds @ [digit_char k]"
    using cl by (simp add: ds(3) d_def[symmetric] c)
  moreover have "EanService_validate (fst (EanService_completeAsEan8 p g))"
    using v by (simp add: ds(3) d_def[symmetric])
  ultimately show ?thesis using ds(1,2) unfolding k_def d_def by blast
qed

lemma Ean_completeAsEan13_data:
  assumes "all_digits p" and "length p \<le> 12"
  shows "\<exists>ds. all_digits ds \<and> length (p @ ds) = 12 \<and>
           fst (EanService_completeAsEan13 p g) =
             EanService_formatEan13 ((p @ ds) @ EanService_calculateChecksum (p @ ds))"
proof (cases "length p = 12")
  case True
  then have "fst (EanService_completeAsEan13 p g) =
      EanService_formatEan13 ((p @ []) @ EanService_calculateChecksum (p @ []))"
    by (simp add: EanService_completeAsEan13_def Let_def substring_def)
  with True show ?thesis by (intro exI[of _ "[]"]) simp
next
  case False
  then have n: "nat (12 - int (length p)) = 12 - length p" "\<not> 12 - int (length p) \<le> 0"
    using assms(2) by simp_all
  obtain ds g' where r: "generateRandomDigits (12 - length p) None g = (ds, g')"
    by (cases "generateRandomDigits (12 - length p) None g")
  from generateRandomDigits_exact[OF r] have ds: "length ds = 12 - length p" "all_digits ds"
    by simp_all
  have "fst (EanService_completeAsEan13 p g) =
      EanService_formatEan13 ((p @ ds) @ EanService_calculateChecksum (p @ ds))"
    using n r by (simp add: EanService_completeAsEan13_def Let_def)
  moreover have "length (p @ ds) = 12" using ds(1) assms(2) by simp
  ultimately show ?thesis using ds(2) by blast
qed

lemma Ean_completeAsEan13_spec:
  assumes "all_digits p" and "length p \<le> 12"
  shows "\<exists>ds. all_digits ds \<and> length (p @ ds) = 12 \<and>
           EanService_cleanInput (fst (EanService_completeAsEan13 p g)) =
             p @ ds @ [digit_char (Ean_spec_check_digit (map digit_val (p @ ds)))] \<and>
           EanService_validate (fst (EanService_completeAsEan13 p g))"
proof -
  from Ean_completeAsEan13_data[OF assms, of g] obtain ds where
    ds: "all_digits ds" "length (p @ ds) = 12"
      "fst (EanService_completeAsEan13 p g) =
         EanService_formatEan13 ((p @ ds) @ EanService_calculateChecksum (p @ ds))"
    by blast
  define d where "d = p @ ds"
  define k where "k = Ean_spec_check_digit (map digit_val d)"
  have d: "all_digits d" "length d = 12" using assms(1) ds(1,2) by (simp_all add: d_def)
  have c: "EanService_calculateChecksum d = [digit_char k]"
    unfolding k_def using d(1) by (rule Ean_checksum_spec)
  have "k < 10" by (simp add: k_def Ean_spec_check_digit_less)
  then have "regex_digits_exact 13 (d @ [digit_char k])"
    using d by (simp add: regex_digits_exact_def digit_char_props)
  then have cl: "EanService_cleanInput (EanService_formatEan13 (d @ [digit_char k])) =
      d @ [digit_char k]"
    by (rule Ean_clean_format13)
  have "regex_digits_exact 12 d" using d by (simp add: regex_digits_exact_def)
  then have v: "EanService_validate (EanService_formatEan13 (d @ EanService_calculateChecksum d))"
    by (rule Ean_finish13)
  have "EanService_cleanInput (fst (EanService_completeAsEan13 p g)) = p @ ds @ [digit_char k]"
    using cl by (simp add: ds(3) d_def[symmetric] c)
  moreover have "EanService_validate (fst (EanService_completeAsEan13 p g))"
    using v by (simp add: ds(3) d_def[symmetric])
  ultimately show ?thesis using ds(1,2) unfolding k_def d_def by blast
qed

lemma Ean_completeAsUpcA_data:
  assumes "all_digits p" and "length p \<le> 11"
  shows "\<exists>ds. all_digits ds \<and> length (p @ ds) = 11 \<and>
           fst (EanService_completeAsUpcA p g) =
             EanService_formatUpcA ((p @ ds) @ EanService_calculateChecksum (p @ ds))"
proof (cases "length p = 11")
  case True
  then have "fst (EanService_completeAsUpcA p g) =
      EanService_formatUpcA ((p @ []) @ EanService_calculateChecksum (p @ []))"
    by (simp add: EanService_completeAsUpcA_def Let_def substring_def)
  with True show ?thesis by (intro exI[of _ "[]"]) simp
next
  case False
  then have n: "nat (11 - int (length p)) = 11 - length p" "\<not> 11 - int (length p) \<le> 0"
    using assms(2) by simp_all
  obtain ds g' where r: "generateRandomDigits (11 - length p) None g = (ds, g')"
    by (cases "generateRandomDigits (11 - length p) None g")
  from generateRandomDigits_exact[OF r] have ds: "length ds = 11 - length p" "all_digits ds"
    by simp_all
  have "fst (EanService_completeAsUpcA p g) =
      EanService_formatUpcA ((p @ ds) @ EanService_calculateChecksum (p @ ds))"
    using n r by (simp add: EanService_completeAsUpcA_def Let_def)
  moreover have "length (p @ ds) = 11" using ds(1) assms(2) by simp
  ultimately show ?thesis using ds(2) by blast
qed

lemma Ean_completeAsUpcA_spec:
  assumes "all_digits p" and "length p \<le> 11"
  shows "\<exists>ds. all_digits ds \<and> length (p @ ds) = 11 \<and>
           EanService_cleanInput (fst (EanService_completeAsUpcA p g)) =
             p @ ds @ [digit_char (Ean_spec_check_digit (map digit_val (p @ ds)))] \<and>
           EanService_validate (fst (EanService_completeAsUpcA p g))"
proof -
  from Ean_completeAsUpcA_data[OF assms, of g] obtain ds where
    ds: "all_digits ds" "length (p @ ds) = 11"
      "fst (EanService_completeAsUpcA p g) =
         EanService_formatUpcA ((p @ ds) @ EanService_calculateChecksum (p @ ds))"
    by blast
  define d where "d = p @ ds"
  define k where "k = Ean_spec_check_digit (map digit_val d)"
  have d: "all_digits d" "length d = 11" using assms(1) ds(1,2) by (simp_all add: d_def)
  have c: "EanService_calculateChecksum d = [digit_char k]"
    unfolding k_def using d(1) by (rule Ean_checksum_spec)
  have "k < 10" by (simp add: k_def Ean_spec_check_digit_less)
  then have "regex_digits_exact 12 (d @ [digit_char k])"
    using d by (simp add: regex_digits_exact_def digit_char_props)
  then have cl: "EanService_cleanInput (EanService_formatUpcA (d @ [digit_char k])) =
      d @ [digit_char k]"
    by (rule Ean_clean_format12)
  have "regex_digits_exact 11 d" using d by (simp add: regex_digits_exact_def)
  then have v: "EanService_validate (EanService_formatUpcA (d @ EanService_calculateChecksum d))"
    by (rule Ean_finish12)
  have "EanService_cleanInput (fst (EanService_completeAsUpcA p g)) = p @ ds @ [digit_char k]"
    using cl by (simp add: ds(3) d_def[symmetric] c)
  moreover have "EanService_validate (fst (EanService_completeAsUpcA p g))"
    using v by (simp add: ds(3) d_def[symmetric])
  ultimately show ?thesis using ds(1,2) unfolding k_def d_def by blast
qed

lemma Ean_upca_branch_dead: "EanService_complete_branch c \<noteq> Some TargetUpcA"
  by (simp add: EanService_complete_branch_def)

text \<open>
  C6. The claim has the UPC-A completion reachable for partials of 3 to 11 digits, and the
  repository's tests require an 11-digit partial to become a 12-digit UPC-A and a 12-digit
  partial to gain its check digit. \<^verbatim>\<open>EanService.complete\<close> does neither: its third
  condition (3 to 11 digits, \<^verbatim>\<open>completeAsUpcA\<close>) comes after two conditions that already
  take every length from 3 to 11, so no input reaches it; 3 to 6 digits go to
  \<^verbatim>\<open>completeAsEan8\<close>, 7 to 11 digits (11 included) go to \<^verbatim>\<open>completeAsEan13\<close>, and every
  other length, 12 included, is rejected with an error. The three helpers themselves do
  what the claim says: each pads a digit string with random digits to 7, 12 or 11 data
  digits and appends the check digit of the specification (weights 3 and 1 alternately
  from the rightmost data digit, check digit (10 - (sum mod 10)) mod 10), and the result
  passes \<^verbatim>\<open>validate\<close>.
\<close>

theorem EanService_complete_upca_unreachable:
  "EanService_complete_branch c \<noteq> Some TargetUpcA \<and>
   fst (EanService_complete partial g) =
     (if 3 \<le> length (EanService_cleanInput partial) \<and> length (EanService_cleanInput partial) < 7
      then Inr (fst (EanService_completeAsEan8 (EanService_cleanInput partial) g))
      else if 7 \<le> length (EanService_cleanInput partial) \<and>
              length (EanService_cleanInput partial) < 12
      then Inr (fst (EanService_completeAsEan13 (EanService_cleanInput partial) g))
      else Inl CannotComplete) \<and>
   (all_digits p \<and> length p \<le> 7 \<longrightarrow>
      (\<exists>ds. all_digits ds \<and> length (p @ ds) = 7 \<and>
         EanService_cleanInput (fst (EanService_completeAsEan8 p g)) =
           p @ ds @ [digit_char (Ean_spec_check_digit (map digit_val (p @ ds)))] \<and>
         EanService_validate (fst (EanService_completeAsEan8 p g)))) \<and>
   (all_digits p \<and> length p \<le> 12 \<longrightarrow>
      (\<exists>ds. all_digits ds \<and> length (p @ ds) = 12 \<and>
         EanService_cleanInput (fst (EanService_completeAsEan13 p g)) =
           p @ ds @ [digit_char (Ean_spec_check_digit (map digit_val (p @ ds)))] \<and>
         EanService_validate (fst (EanService_completeAsEan13 p g)))) \<and>
   (all_digits p \<and> length p \<le> 11 \<longrightarrow>
      (\<exists>ds. all_digits ds \<and> length (p @ ds) = 11 \<and>
         EanService_cleanInput (fst (EanService_completeAsUpcA p g)) =
           p @ ds @ [digit_char (Ean_spec_check_digit (map digit_val (p @ ds)))] \<and>
         EanService_validate (fst (EanService_completeAsUpcA p g)))) \<and>
   (all_digits d \<longrightarrow>
      EanService_calculateChecksum d = [digit_char (Ean_spec_check_digit (map digit_val d))])"
proof -
  have 1: "fst (EanService_complete partial g) =
     (if 3 \<le> length (EanService_cleanInput partial) \<and> length (EanService_cleanInput partial) < 7
      then Inr (fst (EanService_completeAsEan8 (EanService_cleanInput partial) g))
      else if 7 \<le> length (EanService_cleanInput partial) \<and>
              length (EanService_cleanInput partial) < 12
      then Inr (fst (EanService_completeAsEan13 (EanService_cleanInput partial) g))
      else Inl CannotComplete)"
    by (simp only: Ean_complete_routes Let_def)
  from 1 Ean_upca_branch_dead[of c] Ean_completeAsEan8_spec[of p g] Ean_completeAsEan13_spec[of p g]
    Ean_completeAsUpcA_spec[of p g] Ean_checksum_spec[of d]
  show ?thesis by blast
qed

theorem EanService_complete_upca_unreachable_witness:
  "fst (EanService_complete ''03600029145'' (\<lambda>i. unit_of 0)) =
     Inr (fst (EanService_completeAsEan13 ''03600029145'' (\<lambda>i. unit_of 0))) \<and>
   length (EanService_cleanInput (fst (EanService_completeAsEan13 ''03600029145'' (\<lambda>i. unit_of 0)))) =
     13 \<and>
   EanService_cleanInput (fst (EanService_completeAsUpcA ''03600029145'' (\<lambda>i. unit_of 0))) =
     ''036000291452'' \<and>
   fst (EanService_complete ''400638133393'' (\<lambda>i. unit_of 0)) = Inl CannotComplete \<and>
   EanService_cleanInput (fst (EanService_completeAsEan13 ''400638133393'' (\<lambda>i. unit_of 0))) =
     ''4006381333931'' \<and>
   EanService_validate (fst (EanService_completeAsEan13 ''400638133393'' (\<lambda>i. unit_of 0))) \<and>
   EanService_calculateChecksum ''1234567'' = ''0''"
proof -
  note t11 = EanService_complete_upca_unreachable[of "''03600029145''" "''03600029145''"
      "\<lambda>i. unit_of 0" "''03600029145''" "''1234567''"]
  note t12 = EanService_complete_upca_unreachable[of "''400638133393''" "''400638133393''"
      "\<lambda>i. unit_of 0" "''400638133393''" "''1234567''"]
  have c: "EanService_cleanInput ''03600029145'' = ''03600029145''"
    "EanService_cleanInput ''400638133393'' = ''400638133393''"
    by (simp_all add: EanService_cleanInput_def is_space_def)
  have d: "all_digits ''03600029145''" "all_digits ''400638133393''" "all_digits ''1234567''"
    by (simp_all add: is_digit_def)
  have v: "Ean_spec_check_digit (map digit_val ''03600029145'') = 2"
    "Ean_spec_check_digit (map digit_val ''400638133393'') = 1"
    "Ean_spec_check_digit (map digit_val ''1234567'') = 0"
    by (simp_all add: Ean_spec_check_digit_def digit_val_def)
  have 1: "fst (EanService_complete ''03600029145'' (\<lambda>i. unit_of 0)) =
     Inr (fst (EanService_completeAsEan13 ''03600029145'' (\<lambda>i. unit_of 0)))"
    using t11 by (simp add: c)
  from t11 d(1) obtain ds where
    ds: "length (''03600029145'' @ ds) = 12"
      "EanService_cleanInput (fst (EanService_completeAsEan13 ''03600029145'' (\<lambda>i. unit_of 0))) =
         ''03600029145'' @ ds @
           [digit_char (Ean_spec_check_digit (map digit_val (''03600029145'' @ ds)))]"
    by auto
  have 2: "length (EanService_cleanInput
      (fst (EanService_completeAsEan13 ''03600029145'' (\<lambda>i. unit_of 0)))) = 13"
    unfolding ds(2) using ds(1) by simp
  from t11 d(1) obtain es where
    es: "length (''03600029145'' @ es) = 11"
      "EanService_cleanInput (fst (EanService_completeAsUpcA ''03600029145'' (\<lambda>i. unit_of 0))) =
         ''03600029145'' @ es @
           [digit_char (Ean_spec_check_digit (map digit_val (''03600029145'' @ es)))]"
    by auto
  from es(1) have "es = []" by simp
  then have 3: "EanService_cleanInput
      (fst (EanService_completeAsUpcA ''03600029145'' (\<lambda>i. unit_of 0))) = ''036000291452''"
    using es(2) v(1) by (simp add: digit_char_def)
  have 4: "fst (EanService_complete ''400638133393'' (\<lambda>i. unit_of 0)) = Inl CannotComplete"
    using t12 by (simp add: c)
  from t12 d(2) obtain fs where
    fs: "length (''400638133393'' @ fs) = 12"
      "EanService_cleanInput (fst (EanService_completeAsEan13 ''400638133393'' (\<lambda>i. unit_of 0))) =
         ''400638133393'' @ fs @
           [digit_char (Ean_spec_check_digit (map digit_val (''400638133393'' @ fs)))]"
      "EanService_validate (fst (EanService_completeAsEan13 ''400638133393'' (\<lambda>i. unit_of 0)))"
    by auto
  from fs(1) have "fs = []" by simp
  then have 5: "EanService_cleanInput
      (fst (EanService_completeAsEan13 ''400638133393'' (\<lambda>i. unit_of 0))) = ''4006381333931''"
    using fs(2) v(2) by (simp add: digit_char_def)
  have 6: "EanService_calculateChecksum ''1234567'' = ''0''"
    using t11 d(3) v(3) by (simp add: digit_char_def)
  from 1 2 3 4 5 fs(3) 6 show ?thesis by blast
qed

end
